theory Spec2Isabelle
  imports Main
begin

section \<open>Undefined behaviour and machine sizes\<close>

text \<open>
  The C++ sources (\<^verbatim>\<open>spsc_queue.hpp\<close>, \<^verbatim>\<open>spsc_block_buffer.hpp\<close>,
  \<^verbatim>\<open>block_buffer.hpp\<close>) are modelled sequentially: one thread performs the producer
  and the consumer calls one after the other, so every atomic load and store is a plain
  one.  An operation returns \<open>Inl\<close> of a fault where the C++ has undefined behaviour or
  does not return; otherwise \<open>Inr\<close> of its result.
\<close>

datatype fault =
    NullDeref      \<comment> \<open>a null pointer is dereferenced\<close>
  | WildPointer    \<comment> \<open>a pointer to no allocated node is dereferenced\<close>
  | DeadObject     \<comment> \<open>a payload is read after its destructor ran\<close>
  | OutOfBounds    \<comment> \<open>a block is accessed past its last byte\<close>
  | EmptyFront     \<comment> \<open>\<^verbatim>\<open>std::queue::front()\<close> or \<^verbatim>\<open>pop()\<close> on an empty queue\<close>
  | Diverges       \<comment> \<open>the loop never ends\<close>
  | OutOfFuel      \<comment> \<open>a loop over a queue took more turns than the queue has nodes\<close>
  | BadResponse    \<comment> \<open>a scripted system-call result exceeds the count that was asked for\<close>
  | AssertFailed   \<comment> \<open>an \<^verbatim>\<open>assert\<close> of the source fails\<close>
  | NoResponse     \<comment> \<open>the script of system-call results ended before the call returned\<close>

definition bindF :: "fault + 'a \<Rightarrow> ('a \<Rightarrow> fault + 'b) \<Rightarrow> fault + 'b" where
  "bindF m f = (case m of Inl e \<Rightarrow> Inl e | Inr x \<Rightarrow> f x)"

section \<open>The intrusive queue of \<^verbatim>\<open>spsc_queue.hpp\<close> (mode 0)\<close>

text \<open>
  Nodes live in an explicit store, a list indexed by address; \<^verbatim>\<open>new Node\<close> appends a
  cell, and no cell is freed before the destructor of the queue.  A pointer is
  \<open>addr option\<close>, \<open>None\<close> being \<^verbatim>\<open>nullptr\<close>.  The fields \<^verbatim>\<open>head_\<close>, \<^verbatim>\<open>tail_\<close>, \<^verbatim>\<open>free_head_\<close> and \<^verbatim>\<open>free_tail_\<close> are written without the
  trailing underscore, \<^verbatim>\<open>next\<close> is \<open>nxt\<close>.  The payload \<open>obj\<close> of a node is \<open>None\<close>
  once \<^verbatim>\<open>obj.~T()\<close> has run on it.
\<close>

type_synonym addr = nat

record 'a node =
  obj :: "'a option"
  nxt :: "addr option"

record 'a spsc_queue =
  heap :: "'a node list"
  head :: "addr option"
  tail :: "addr option"
  free_head :: "addr option"
  free_tail :: "addr option"

definition load :: "'a node list \<Rightarrow> addr option \<Rightarrow> fault + 'a node" where
  "load h p = (case p of None \<Rightarrow> Inl NullDeref
               | Some a \<Rightarrow> if a < length h then Inr (h ! a) else Inl WildPointer)"

definition store :: "'a node list \<Rightarrow> addr option \<Rightarrow> ('a node \<Rightarrow> 'a node) \<Rightarrow> fault + 'a node list" where
  "store h p f = (case p of None \<Rightarrow> Inl NullDeref
               | Some a \<Rightarrow> if a < length h then Inr (h[a := f (h ! a)]) else Inl WildPointer)"

text \<open>
  The constructor: \<^verbatim>\<open>head_ = new Node(); tail_ = head_; free_head_ = new Node();
  free_tail_ = free_head_;\<close>.  \<^verbatim>\<open>new Node()\<close> value-initialises the node, so its \<open>next\<close> is
  null and its payload is the default value \<open>d\<close> of \<open>T\<close>.
\<close>

definition q_init :: "'a \<Rightarrow> 'a spsc_queue" where
  "q_init d = \<lparr>heap = [\<lparr>obj = Some d, nxt = None\<rparr>, \<lparr>obj = Some d, nxt = None\<rparr>],
              head = Some 0, tail = Some 0, free_head = Some 1, free_tail = Some 1\<rparr>"

definition free_list_empty :: "'a spsc_queue \<Rightarrow> bool" where
  "free_list_empty q = (free_head q = free_tail q)"

text \<open>
  \<^verbatim>\<open>push(const T&)\<close>, \<^verbatim>\<open>push(T&&)\<close> and \<^verbatim>\<open>emplace(args...)\<close> have the same body up to how
  the payload is constructed; \<open>q_push\<close> is that body, statement by statement.
\<close>

definition q_push :: "'a spsc_queue \<Rightarrow> 'a \<Rightarrow> fault + 'a spsc_queue" where
  "q_push q x =
    (if free_list_empty q then
       \<comment> \<open>\<^verbatim>\<open>tail_->next = new Node(nullptr, obj);\<close>\<close>
       bindF (store (heap q @ [\<lparr>obj = Some x, nxt = None\<rparr>]) (tail q)
                (\<lambda>n. n\<lparr>nxt := Some (length (heap q))\<rparr>)) (\<lambda>h1.
       \<comment> \<open>\<^verbatim>\<open>tail_ = tail_->next;\<close>\<close>
       bindF (load h1 (tail q)) (\<lambda>t.
       Inr (q\<lparr>heap := h1, tail := nxt t\<rparr>)))
     else
       \<comment> \<open>\<^verbatim>\<open>tail_->next = free_head_;\<close>\<close>
       bindF (store (heap q) (tail q) (\<lambda>n. n\<lparr>nxt := free_head q\<rparr>)) (\<lambda>h1.
       \<comment> \<open>\<^verbatim>\<open>free_head_ = free_head_->next;\<close>\<close>
       bindF (load h1 (free_head q)) (\<lambda>f.
       \<comment> \<open>\<^verbatim>\<open>new (tail_->next) Node(nullptr, obj);\<close>\<close>
       bindF (load h1 (tail q)) (\<lambda>t.
       bindF (store h1 (nxt t) (\<lambda>_. \<lparr>obj = Some x, nxt = None\<rparr>)) (\<lambda>h2.
       \<comment> \<open>\<^verbatim>\<open>tail_ = tail_->next;\<close>\<close>
       bindF (load h2 (tail q)) (\<lambda>t2.
       Inr (q\<lparr>heap := h2, free_head := nxt f, tail := nxt t2\<rparr>)))))))"

definition q_emplace :: "'a spsc_queue \<Rightarrow> 'a \<Rightarrow> fault + 'a spsc_queue" where
  "q_emplace q x = q_push q x"

definition q_pop :: "'a spsc_queue \<Rightarrow> fault + 'a spsc_queue" where
  "q_pop q =
     \<comment> \<open>\<^verbatim>\<open>free_tail_->next = head_;\<close>\<close>
     bindF (store (heap q) (free_tail q) (\<lambda>n. n\<lparr>nxt := head q\<rparr>)) (\<lambda>h1.
     \<comment> \<open>\<^verbatim>\<open>head_ = head_->next;\<close>\<close>
     bindF (load h1 (head q)) (\<lambda>hd.
     \<comment> \<open>\<^verbatim>\<open>free_tail_->next->obj.~T();\<close>\<close>
     bindF (load h1 (free_tail q)) (\<lambda>ft.
     bindF (store h1 (nxt ft) (\<lambda>n. n\<lparr>obj := None\<rparr>)) (\<lambda>h2.
     \<comment> \<open>\<^verbatim>\<open>free_tail_->next->next = nullptr;\<close>\<close>
     bindF (load h2 (free_tail q)) (\<lambda>ft2.
     bindF (store h2 (nxt ft2) (\<lambda>n. n\<lparr>nxt := None\<rparr>)) (\<lambda>h3.
     \<comment> \<open>\<^verbatim>\<open>free_tail_ = free_tail_->next;\<close>\<close>
     bindF (load h3 (free_tail q)) (\<lambda>ft3.
     Inr (q\<lparr>heap := h3, head := nxt hd, free_tail := nxt ft3\<rparr>))))))))"

text \<open>
  \<^verbatim>\<open>front()\<close> and \<^verbatim>\<open>back()\<close> return references: \<open>front_ref\<close> and \<open>back_ref\<close> are the
  addresses of the nodes whose payload they refer to (\<^verbatim>\<open>head_->next\<close> and \<^verbatim>\<open>tail_\<close>),
  \<open>get_obj\<close> and \<open>set_obj\<close> read and write through such a reference.
\<close>

definition front_ref :: "'a spsc_queue \<Rightarrow> fault + addr" where
  "front_ref q = bindF (load (heap q) (head q)) (\<lambda>hd.
                 bindF (load (heap q) (nxt hd)) (\<lambda>_. Inr (the (nxt hd))))"

definition back_ref :: "'a spsc_queue \<Rightarrow> fault + addr" where
  "back_ref q = bindF (load (heap q) (tail q)) (\<lambda>_. Inr (the (tail q)))"

definition get_obj :: "'a spsc_queue \<Rightarrow> addr \<Rightarrow> fault + 'a" where
  "get_obj q a = bindF (load (heap q) (Some a)) (\<lambda>n.
                 case obj n of None \<Rightarrow> Inl DeadObject | Some x \<Rightarrow> Inr x)"

definition set_obj :: "'a spsc_queue \<Rightarrow> addr \<Rightarrow> 'a \<Rightarrow> fault + 'a spsc_queue" where
  "set_obj q a x = bindF (get_obj q a) (\<lambda>_.
                   bindF (store (heap q) (Some a) (\<lambda>n. n\<lparr>obj := Some x\<rparr>)) (\<lambda>h1.
                   Inr (q\<lparr>heap := h1\<rparr>)))"

definition q_front :: "'a spsc_queue \<Rightarrow> fault + 'a" where
  "q_front q = bindF (front_ref q) (get_obj q)"

definition q_back :: "'a spsc_queue \<Rightarrow> fault + 'a" where
  "q_back q = bindF (back_ref q) (get_obj q)"

definition q_empty :: "'a spsc_queue \<Rightarrow> bool" where
  "q_empty q = (head q = tail q)"

text \<open>\<open>push_all\<close> pushes a list front first; \<open>drain q n\<close> performs \<open>n\<close> pairs
  \<^verbatim>\<open>front(); pop();\<close> and collects what \<^verbatim>\<open>front()\<close> returned.\<close>

fun push_all :: "'a spsc_queue \<Rightarrow> 'a list \<Rightarrow> fault + 'a spsc_queue" where
  "push_all q [] = Inr q"
| "push_all q (x # xs) = bindF (q_push q x) (\<lambda>q1. push_all q1 xs)"

fun drain :: "'a spsc_queue \<Rightarrow> nat \<Rightarrow> fault + ('a list \<times> 'a spsc_queue)" where
  "drain q 0 = Inr ([], q)"
| "drain q (Suc n) =
     bindF (q_front q) (\<lambda>x.
     bindF (q_pop q) (\<lambda>q1.
     bindF (drain q1 n) (\<lambda>r. Inr (x # fst r, snd r))))"

subsection \<open>The representation invariant of the queue\<close>

text \<open>\<open>chain h p as\<close>: following \<open>next\<close> from \<open>p\<close> visits exactly the nodes \<open>as\<close> and then
  reaches null.\<close>

primrec chain :: "'a node list \<Rightarrow> addr option \<Rightarrow> addr list \<Rightarrow> bool" where
  "chain h p [] = (p = None)"
| "chain h p (a # as) = (p = Some a \<and> a < length h \<and> chain h (nxt (h ! a)) as)"

text \<open>\<open>q_rep q ms fs\<close>: \<open>ms\<close> is the list from \<open>head\<close> (the dummy node first, then the
  elements, \<open>tail\<close> last) and \<open>fs\<close> the free list from \<open>free_head\<close> to \<open>free_tail\<close>;
  no node is in both.  \<open>q_vals\<close> are the payloads of the elements.\<close>

definition q_rep :: "'a spsc_queue \<Rightarrow> addr list \<Rightarrow> addr list \<Rightarrow> bool" where
  "q_rep q ms fs =
     (chain (heap q) (head q) ms \<and> ms \<noteq> [] \<and> tail q = Some (last ms) \<and>
      chain (heap q) (free_head q) fs \<and> fs \<noteq> [] \<and> free_tail q = Some (last fs) \<and>
      distinct (ms @ fs))"

definition q_vals :: "'a spsc_queue \<Rightarrow> addr list \<Rightarrow> 'a option list" where
  "q_vals q ms = map (\<lambda>a. obj (heap q ! a)) (tl ms)"

text \<open>\<open>q_holds q xs\<close>: the queue is well formed and holds exactly \<open>xs\<close>, front first,
  all of them alive.\<close>

definition q_holds :: "'a spsc_queue \<Rightarrow> 'a list \<Rightarrow> bool" where
  "q_holds q xs = (\<exists>ms fs. q_rep q ms fs \<and> q_vals q ms = map Some xs)"

section \<open>The SPSC block buffer of \<^verbatim>\<open>spsc_block_buffer.hpp\<close> (\<^verbatim>\<open>SPSCBlockBuffer\<close>, mode 0)\<close>

text \<open>
  \<^verbatim>\<open>size_t\<close> is a natural number below \<open>2 ^ 64\<close>; \<open>sz_add\<close> and \<open>sz_sub\<close> are its \<open>+\<close> and
  \<open>-\<close>, which wrap around, and \<open>to_size\<close> is the conversion \<^verbatim>\<open>(size_t)\<close> of an
  \<^verbatim>\<open>ssize_t\<close>.  An \<^verbatim>\<open>ssize_t\<close> is an \<open>int\<close>: the byte counts held in one never leave its
  range.
\<close>

definition sz_add :: "nat \<Rightarrow> nat \<Rightarrow> nat" where
  "sz_add a b = (a + b) mod 2 ^ 64"

definition sz_sub :: "nat \<Rightarrow> nat \<Rightarrow> nat" where
  "sz_sub a b = (if b \<le> a then a - b else (a + 2 ^ 64 - b) mod 2 ^ 64)"

definition to_size :: "int \<Rightarrow> nat" where
  "to_size i = nat (i mod 2 ^ 64)"

text \<open>
  A block is the \<^verbatim>\<open>char\<close> array behind a \<^verbatim>\<open>std::unique_ptr<char[]>\<close>; the pointer owns
  it alone, so the block is held by value, and \<open>None\<close> is the null (moved-from)
  pointer.  A segment is the \<^verbatim>\<open>std::pair<std::unique_ptr<char[]>, size_t>\<close> of a block
  and its length \<open>end\<close>.

  \<^verbatim>\<open>wpos_\<close>, a \<^verbatim>\<open>size_t*\<close> to the \<^verbatim>\<open>second\<close> field of a node of \<open>buf\<close>, is the address
  of that node.  The fields are named as in the source, without the trailing
  underscore.  \<open>uninit\<close> and \<open>allocs\<close> stand for the allocator: byte \<open>j\<close> of the \<open>k\<close>-th
  block obtained from \<^verbatim>\<open>new char[block_size_]\<close> holds \<open>uninit k j\<close> until written.
\<close>

type_synonym block = "char list"
type_synonym segment = "block option \<times> nat"

record buffer =
  block_size :: nat
  buf :: "segment spsc_queue"
  free_list :: "block option spsc_queue"
  preserved_list :: "segment spsc_queue"
  rpos :: nat
  wpos :: "addr option"
  wpos_private :: nat
  one_block_left :: bool
  uninit :: "nat \<Rightarrow> nat \<Rightarrow> char"
  allocs :: nat

definition new_block :: "buffer \<Rightarrow> block" where
  "new_block s = map (uninit s (allocs s)) [0..<block_size s]"

text \<open>Reading and writing \<^verbatim>\<open>*p\<close> for a pointer \<open>p\<close> to the \<^verbatim>\<open>second\<close> field of a node.\<close>

definition load_end :: "segment spsc_queue \<Rightarrow> addr option \<Rightarrow> fault + nat" where
  "load_end q p = (case p of None \<Rightarrow> Inl NullDeref
                   | Some a \<Rightarrow> bindF (get_obj q a) (\<lambda>seg. Inr (snd seg)))"

definition store_end :: "segment spsc_queue \<Rightarrow> addr option \<Rightarrow> nat \<Rightarrow> fault + segment spsc_queue" where
  "store_end q p v = (case p of None \<Rightarrow> Inl NullDeref
                   | Some a \<Rightarrow> bindF (get_obj q a) (\<lambda>seg. set_obj q a (fst seg, v)))"

text \<open>\<^verbatim>\<open>notify()\<close> in mode 0 is the release store \<^verbatim>\<open>*wpos_ = wpos_private_\<close>.\<close>

definition notify :: "buffer \<Rightarrow> fault + buffer" where
  "notify s = bindF (store_end (buf s) (wpos s) (wpos_private s)) (\<lambda>b. Inr (s\<lparr>buf := b\<rparr>))"

text \<open>The default constructor builds the three queues and leaves the scalar fields
  unset; \<open>init\<close> sets every one of them.  \<open>pagesz\<close> is \<^verbatim>\<open>sysconf(_SC_PAGESIZE)\<close>.\<close>

definition unset :: "(nat \<Rightarrow> nat \<Rightarrow> char) \<Rightarrow> buffer" where
  "unset u = \<lparr>block_size = 0, buf = q_init (None, 0), free_list = q_init None,
              preserved_list = q_init (None, 0), rpos = 0, wpos = None, wpos_private = 0,
              one_block_left = False, uninit = u, allocs = 0\<rparr>"

definition init :: "nat \<Rightarrow> buffer \<Rightarrow> int \<Rightarrow> fault + buffer" where
  "init pagesz s bs =
     (let s1 = s\<lparr>rpos := 0, wpos_private := 0, one_block_left := True,
                 block_size := (if bs = - 1 then pagesz else to_size bs)\<rparr> in
      \<comment> \<open>\<^verbatim>\<open>buf_.emplace(new char[block_size_], 0);\<close>\<close>
      bindF (q_emplace (buf s1) (Some (new_block s1), 0)) (\<lambda>b.
      \<comment> \<open>\<^verbatim>\<open>wpos_ = &buf_.back().second;\<close>\<close>
      bindF (back_ref b) (\<lambda>a.
      Inr (s1\<lparr>buf := b, allocs := Suc (allocs s1), wpos := Some a\<rparr>))))"

definition add_block :: "buffer \<Rightarrow> fault + buffer" where
  "add_block s =
     \<comment> \<open>\<^verbatim>\<open>*wpos_ = wpos_private_; wpos_private_ = 0;\<close>\<close>
     bindF (store_end (buf s) (wpos s) (wpos_private s)) (\<lambda>b0.
     let s1 = s\<lparr>buf := b0, wpos_private := 0\<rparr> in
     bindF
       (if q_empty (free_list s1) then
          \<comment> \<open>\<^verbatim>\<open>buf_.emplace(new char[block_size_], 0);\<close>\<close>
          bindF (q_emplace (buf s1) (Some (new_block s1), 0)) (\<lambda>b.
          Inr (s1\<lparr>buf := b, allocs := Suc (allocs s1)\<rparr>))
        else
          \<comment> \<open>\<^verbatim>\<open>buf_.emplace(std::move(free_list_.front()), 0); free_list_.pop();\<close>\<close>
          bindF (front_ref (free_list s1)) (\<lambda>r.
          bindF (get_obj (free_list s1) r) (\<lambda>blk.
          bindF (set_obj (free_list s1) r None) (\<lambda>fl.
          bindF (q_emplace (buf s1) (blk, 0)) (\<lambda>b.
          bindF (q_pop fl) (\<lambda>fl2.
          Inr (s1\<lparr>buf := b, free_list := fl2\<rparr>))))))) (\<lambda>s2.
     \<comment> \<open>\<^verbatim>\<open>wpos_ = &buf_.back().second;\<close>\<close>
     bindF (back_ref (buf s2)) (\<lambda>a.
     Inr (s2\<lparr>wpos := Some a\<rparr>))))"

definition add_block_if_needed :: "buffer \<Rightarrow> fault + buffer" where
  "add_block_if_needed s =
     (if wpos_private s = block_size s then add_block s else Inr s)"

definition add_block_if_needed_cont :: "buffer \<Rightarrow> nat \<Rightarrow> fault + buffer" where
  "add_block_if_needed_cont s cont_write_len =
     (if cont_write_len > sz_sub (block_size s) (wpos_private s) then add_block s else Inr s)"

text \<open>\<^verbatim>\<open>std::copy(src, src + n, buf_.back().first.get() + wpos_private_)\<close>: the bytes
  replace those of the tail block from offset \<open>wpos_private\<close> on.\<close>

definition copy_to_back :: "buffer \<Rightarrow> char list \<Rightarrow> fault + buffer" where
  "copy_to_back s bytes =
     bindF (back_ref (buf s)) (\<lambda>a.
     bindF (get_obj (buf s) a) (\<lambda>seg.
     if bytes = [] then Inr s
     else case fst seg of
       None \<Rightarrow> Inl NullDeref
     | Some blk \<Rightarrow>
         if wpos_private s + length bytes \<le> length blk then
           bindF (set_obj (buf s) a
                    (Some (take (wpos_private s) blk @ bytes @
                           drop (wpos_private s + length bytes) blk), snd seg)) (\<lambda>b.
           Inr (s\<lparr>buf := b\<rparr>))
         else Inl OutOfBounds))"

lemma bindF_cong [fundef_cong]:
  "m = m' \<Longrightarrow> (\<And>x. m' = Inr x \<Longrightarrow> f x = f' x) \<Longrightarrow> bindF m f = bindF m' f'"
  by (cases m') (simp_all add: bindF_def)

text \<open>
  The loop of \<^verbatim>\<open>write(const char*, const char*, bool)\<close>, on the bytes still to be
  written.  When \<open>to_write\<close> is 0 nothing is copied and the loop condition still
  holds: this happens exactly when \<open>block_size\<close> is 0, every turn then adds a block and
  the loop does not end.
\<close>

function write_loop :: "buffer \<Rightarrow> char list \<Rightarrow> fault + buffer" where
  "write_loop s bytes =
     (if bytes = [] then Inr s
      else
        bindF (add_block_if_needed s) (\<lambda>s1.
        let to_write = min (length bytes) (sz_sub (block_size s1) (wpos_private s1)) in
        bindF (copy_to_back s1 (take to_write bytes)) (\<lambda>s2.
        if to_write = 0 then Inl Diverges
        else write_loop (s2\<lparr>wpos_private := sz_add (wpos_private s2) to_write\<rparr>)
                        (drop to_write bytes))))"
  by pat_completeness auto
termination
  by (relation "measure (\<lambda>(s, bytes). length bytes)") auto

declare write_loop.simps [simp del]

definition write_range :: "buffer \<Rightarrow> char list \<Rightarrow> bool \<Rightarrow> fault + buffer" where
  "write_range s bytes do_notify =
     bindF (write_loop s bytes) (\<lambda>s1. if do_notify then notify s1 else Inr s1)"

text \<open>
  \<^verbatim>\<open>write<T>(v)\<close> writes the \<^verbatim>\<open>sizeof(T)\<close> bytes of the object \<open>v\<close>, given here as its
  bytes \<open>rep\<close>.  A \<^verbatim>\<open>size_t\<close> is 8 bytes; \<open>encode_size\<close> and \<open>decode_size\<close> are its
  object representation (least significant byte first) and the value read back from
  one.
\<close>

definition write_T :: "buffer \<Rightarrow> char list \<Rightarrow> bool \<Rightarrow> fault + buffer" where
  "write_T s rep do_notify = write_range s rep do_notify"

fun enc :: "nat \<Rightarrow> nat \<Rightarrow> char list" where
  "enc 0 n = []"
| "enc (Suc k) n = char_of (n mod 256) # enc k (n div 256)"

fun decode_size :: "char list \<Rightarrow> nat" where
  "decode_size [] = 0"
| "decode_size (c # cs) = of_char c + 256 * decode_size cs"

definition encode_size :: "nat \<Rightarrow> char list" where
  "encode_size n = enc 8 n"

definition write_string :: "buffer \<Rightarrow> string \<Rightarrow> bool \<Rightarrow> fault + buffer" where
  "write_string s str do_notify =
     bindF (write_T s (encode_size (length str)) False) (\<lambda>s1.
     write_range s1 str do_notify)"

text \<open>\<^verbatim>\<open>&buf_.front().second == wpos_\<close>, and \<^verbatim>\<open>buf_.front().second\<close>.\<close>

definition check_one_block_left :: "buffer \<Rightarrow> fault + bool" where
  "check_one_block_left s = bindF (front_ref (buf s)) (\<lambda>r. Inr (Some r = wpos s))"

definition front_end :: "buffer \<Rightarrow> fault + nat" where
  "front_end s = bindF (front_ref (buf s)) (\<lambda>r.
                 bindF (get_obj (buf s) r) (\<lambda>seg. Inr (snd seg)))"

definition pop_block :: "buffer \<Rightarrow> fault + buffer" where
  "pop_block s =
     \<comment> \<open>\<^verbatim>\<open>preserved_list_.push(std::move(buf_.front()));\<close>\<close>
     bindF (front_ref (buf s)) (\<lambda>r.
     bindF (get_obj (buf s) r) (\<lambda>seg.
     bindF (set_obj (buf s) r (None, snd seg)) (\<lambda>b1.
     bindF (q_push (preserved_list s) seg) (\<lambda>pl.
     \<comment> \<open>\<^verbatim>\<open>buf_.pop(); rpos_ = 0;\<close>\<close>
     bindF (q_pop b1) (\<lambda>b2.
     let s1 = s\<lparr>buf := b2, preserved_list := pl, rpos := 0\<rparr> in
     \<comment> \<open>\<^verbatim>\<open>one_block_left_ = check_one_block_left();\<close>\<close>
     bindF (check_one_block_left s1) (\<lambda>c.
     Inr (s1\<lparr>one_block_left := c\<rparr>)))))))"

text \<open>In mode 0 \<^verbatim>\<open>pop_block_if_needed\<close> and \<^verbatim>\<open>pop_block_if_needed_and_available\<close>
  have the same body.  \<^verbatim>\<open>&&\<close> evaluates its right operand only when the left one
  holds.\<close>

definition pop_block_if_needed :: "buffer \<Rightarrow> nat \<Rightarrow> fault + buffer" where
  "pop_block_if_needed s sz =
     (if one_block_left s then
        bindF (check_one_block_left s) (\<lambda>c.
        if c then Inr s
        else bindF (front_end s) (\<lambda>e.
             if sz_sub e (rpos s) < sz then pop_block s else Inr s))
      else
        bindF (front_end s) (\<lambda>e.
        if sz_sub e (rpos s) < sz then pop_block s else Inr s))"

definition pop_block_if_needed_and_available :: "buffer \<Rightarrow> nat \<Rightarrow> fault + buffer" where
  "pop_block_if_needed_and_available s sz = pop_block_if_needed s sz"

text \<open>
  The loop of \<^verbatim>\<open>clear_preserved\<close>.  Every turn but the last pops a node of
  \<open>preserved_list\<close>; the first argument bounds the number of turns by the number of
  nodes of that queue, which a well-formed queue never reaches.
\<close>

fun clear_loop :: "nat \<Rightarrow> buffer \<Rightarrow> nat \<Rightarrow> nat \<Rightarrow> fault + buffer" where
  "clear_loop 0 s len cleared_len = Inl OutOfFuel"
| "clear_loop (Suc k) s len cleared_len =
     (if q_empty (preserved_list s) then Inr s
      else
        bindF (front_ref (preserved_list s)) (\<lambda>r.
        bindF (get_obj (preserved_list s) r) (\<lambda>seg.
        if sz_add (snd seg) cleared_len \<le> len then
          \<comment> \<open>\<^verbatim>\<open>free_list_.push(std::move(preserved_list_.front().first));\<close>\<close>
          bindF (set_obj (preserved_list s) r (None, snd seg)) (\<lambda>pl.
          bindF (q_push (free_list s) (fst seg)) (\<lambda>fl.
          \<comment> \<open>\<^verbatim>\<open>preserved_list_.pop();\<close>\<close>
          bindF (q_pop pl) (\<lambda>pl2.
          clear_loop k (s\<lparr>free_list := fl, preserved_list := pl2\<rparr>) len
                     (sz_add cleared_len (snd seg)))))
        else Inr s)))"

definition clear_preserved :: "buffer \<Rightarrow> nat \<Rightarrow> fault + buffer" where
  "clear_preserved s len = clear_loop (length (heap (preserved_list s))) s len 0"

text \<open>
  \<^verbatim>\<open>read<T>()\<close> and \<^verbatim>\<open>read_cont(len)\<close> return a pointer into the head block; the model
  returns the bytes it points to, \<open>front_slice\<close>, and \<open>OutOfBounds\<close> when they do not
  lie inside the block.
\<close>

definition front_slice :: "buffer \<Rightarrow> nat \<Rightarrow> fault + char list" where
  "front_slice s len =
     bindF (front_ref (buf s)) (\<lambda>r.
     bindF (get_obj (buf s) r) (\<lambda>seg.
     case fst seg of
       None \<Rightarrow> Inl NullDeref
     | Some blk \<Rightarrow> if rpos s + len \<le> length blk then Inr (take len (drop (rpos s) blk))
                   else Inl OutOfBounds))"

definition read_cont :: "buffer \<Rightarrow> nat \<Rightarrow> fault + (char list \<times> buffer)" where
  "read_cont s len =
     bindF (pop_block_if_needed s len) (\<lambda>s1.
     bindF (front_slice s1 len) (\<lambda>res.
     Inr (res, s1\<lparr>rpos := sz_add (rpos s1) len\<rparr>)))"

definition read_T :: "buffer \<Rightarrow> nat \<Rightarrow> fault + (char list \<times> buffer)" where
  "read_T s sizeof_T =
     bindF (pop_block_if_needed s sizeof_T) (\<lambda>s1.
     bindF (front_slice s1 sizeof_T) (\<lambda>res.
     Inr (res, s1\<lparr>rpos := sz_add (rpos s1) sizeof_T\<rparr>)))"

definition get_T :: "buffer \<Rightarrow> nat \<Rightarrow> fault + (char list \<times> buffer)" where
  "get_T s sizeof_T =
     bindF (read_T s sizeof_T) (\<lambda>(res, s1).
     bindF (clear_preserved s1 sizeof_T) (\<lambda>s2. Inr (res, s2)))"

definition get_cont :: "buffer \<Rightarrow> nat \<Rightarrow> fault + (char list \<times> buffer)" where
  "get_cont s len =
     bindF (pop_block_if_needed s len) (\<lambda>s1.
     bindF (front_slice s1 len) (\<lambda>dest.
     bindF (clear_preserved (s1\<lparr>rpos := sz_add (rpos s1) len\<rparr>) len) (\<lambda>s2.
     Inr (dest, s2))))"

definition get_string :: "buffer \<Rightarrow> fault + (string \<times> buffer)" where
  "get_string s =
     \<comment> \<open>\<^verbatim>\<open>const size_t* len = read<size_t>();\<close>\<close>
     bindF (read_T s 8) (\<lambda>(rep, s1).
     let len = decode_size rep in
     bindF (pop_block_if_needed s1 len) (\<lambda>s2.
     bindF (front_slice s2 len) (\<lambda>str.
     bindF (clear_preserved (s2\<lparr>rpos := sz_add (rpos s2) len\<rparr>) (sz_add 8 len)) (\<lambda>s3.
     Inr (str, s3)))))"

definition write_cont_range :: "buffer \<Rightarrow> char list \<Rightarrow> bool \<Rightarrow> fault + buffer" where
  "write_cont_range s bytes do_notify =
     (if bytes = [] then Inr s
      else
        bindF (add_block_if_needed_cont s (length bytes)) (\<lambda>s1.
        bindF (copy_to_back s1 bytes) (\<lambda>s2.
        let s3 = s2\<lparr>wpos_private := sz_add (wpos_private s2) (length bytes)\<rparr> in
        if do_notify then notify s3 else Inr s3)))"

definition write_cont_T :: "buffer \<Rightarrow> char list \<Rightarrow> bool \<Rightarrow> fault + buffer" where
  "write_cont_T s rep do_notify = write_cont_range s rep do_notify"

definition write_cont_string :: "buffer \<Rightarrow> string \<Rightarrow> bool \<Rightarrow> fault + buffer" where
  "write_cont_string s str do_notify =
     bindF (write_cont_T s (encode_size (length str)) False) (\<lambda>s1.
     write_cont_range s1 str do_notify)"

text \<open>\<^verbatim>\<open>ensure_cont\<close> returns a pointer into the tail block, given as the address of
  the tail node and the offset in its block.\<close>

definition ensure_cont :: "buffer \<Rightarrow> nat \<Rightarrow> fault + ((addr \<times> nat) \<times> buffer)" where
  "ensure_cont s sz =
     bindF (add_block_if_needed_cont s sz) (\<lambda>s1.
     bindF (back_ref (buf s1)) (\<lambda>a.
     Inr ((a, wpos_private s1), s1)))"


definition empty :: "buffer \<Rightarrow> fault + (bool \<times> buffer)" where
  "empty s =
     (if \<not> one_block_left s then Inr (False, s)
      else bindF (check_one_block_left s) (\<lambda>c.
           let s1 = s\<lparr>one_block_left := c\<rparr> in
           if \<not> c then Inr (False, s1)
           else bindF (load_end (buf s1) (wpos s1)) (\<lambda>e. Inr (rpos s1 = e, s1))))"

subsection \<open>File-descriptor input and output\<close>

text \<open>
  The file descriptor is a script: the results of the successive \<^verbatim>\<open>::read\<close> or
  \<^verbatim>\<open>::write\<close> calls.  A \<^verbatim>\<open>::read\<close> result is the returned \<^verbatim>\<open>ssize_t\<close> with the bytes
  the kernel stored, a \<^verbatim>\<open>::write\<close> result the returned \<^verbatim>\<open>ssize_t\<close>.  Neither call
  transfers more than the count it is given.  The functions return the value of the
  call, the buffer and the rest of the script.
\<close>

type_synonym rd = "int \<times> char list"

definition input_done :: "buffer \<Rightarrow> int \<Rightarrow> rd list \<Rightarrow> fault + (int \<times> buffer \<times> rd list)" where
  "input_done s total_len rs =
     (if total_len > 0 then bindF (notify s) (\<lambda>s1. Inr (total_len, s1, rs))
      else Inr (total_len, s, rs))"

fun input_loop :: "buffer \<Rightarrow> bool \<Rightarrow> int \<Rightarrow> int \<Rightarrow> rd list \<Rightarrow> fault + (int \<times> buffer \<times> rd list)" where
  "input_loop s cont max_len total_len [] = Inl NoResponse"
| "input_loop s cont max_len total_len (r # rs) =
     bindF (add_block_if_needed s) (\<lambda>s1.
     let room = sz_sub (block_size s1) (wpos_private s1);
         count = (if max_len = - 1 then room
                  else min (to_size (max_len - total_len)) room);
         len = fst r in
     if int count < len \<or> (0 < len \<and> int (length (snd r)) \<noteq> len) then Inl BadResponse
     else if len < 0 then
       (if total_len = 0 then Inr (len, s1, rs) else input_done s1 total_len rs)
     else if len = 0 then input_done s1 total_len rs
     else
       bindF (copy_to_back s1 (snd r)) (\<lambda>s2.
       let s3 = s2\<lparr>wpos_private := sz_add (wpos_private s2) (to_size len)\<rparr> in
       if cont then input_done s3 (total_len + len) rs
       else input_loop s3 cont max_len (total_len + len) rs))"

definition input_from_fd :: "buffer \<Rightarrow> bool \<Rightarrow> int \<Rightarrow> rd list \<Rightarrow> fault + (int \<times> buffer \<times> rd list)" where
  "input_from_fd s cont max_len rs = input_loop s cont max_len 0 rs"

definition output_done :: "buffer \<Rightarrow> int \<Rightarrow> int list \<Rightarrow> fault + (int \<times> buffer \<times> int list)" where
  "output_done s total_len rs =
     bindF (clear_preserved s (to_size total_len)) (\<lambda>s1. Inr (total_len, s1, rs))"

fun output_loop :: "buffer \<Rightarrow> int \<Rightarrow> int list \<Rightarrow> fault + (int \<times> buffer \<times> int list)" where
  "output_loop s total_len [] = Inl NoResponse"
| "output_loop s total_len (len # rs) =
     bindF (pop_block_if_needed_and_available s 1) (\<lambda>s1.
     \<comment> \<open>the count is \<^verbatim>\<open>buf_.front().second - rpos_\<close> in both branches\<close>
     bindF (front_end s1) (\<lambda>e.
     if int (sz_sub e (rpos s1)) < len then Inl BadResponse
     else if len < 0 then
       (if total_len = 0 then Inr (len, s1, rs) else output_done s1 total_len rs)
     else if len = 0 then output_done s1 total_len rs
     else output_loop (s1\<lparr>rpos := sz_add (rpos s1) (to_size len)\<rparr>) (total_len + len) rs))"

definition output_to_fd :: "buffer \<Rightarrow> int list \<Rightarrow> fault + (int \<times> buffer \<times> int list)" where
  "output_to_fd s rs = output_loop s 0 rs"

section \<open>The sequential \<^verbatim>\<open>BlockBuffer\<close> of \<^verbatim>\<open>block_buffer.hpp\<close>\<close>

text \<open>
  \<^verbatim>\<open>BlockBuffer\<close> keeps its segments in three \<^verbatim>\<open>std::queue\<close>s, modelled as lists with the
  front first; \<^verbatim>\<open>front()\<close>, \<^verbatim>\<open>back()\<close> and \<^verbatim>\<open>pop()\<close> of an empty \<^verbatim>\<open>std::queue\<close> are
  undefined behaviour.  The fields carry the prefix \<open>bb\<close>.  \<open>npos\<close> is \<^verbatim>\<open>(size_t)-1\<close>, the
  mark of the tail segment.
\<close>

definition npos :: nat where
  "npos = 2 ^ 64 - 1"

record bbuffer =
  bb_block_size :: nat
  bb_buf :: "segment list"
  bb_free_list :: "block option list"
  bb_preserved_list :: "segment list"
  bb_rpos :: nat
  bb_wpos :: nat
  bb_uninit :: "nat \<Rightarrow> nat \<Rightarrow> char"
  bb_allocs :: nat

definition sq_front :: "'a list \<Rightarrow> fault + 'a" where
  "sq_front q = (case q of [] \<Rightarrow> Inl EmptyFront | x # _ \<Rightarrow> Inr x)"

definition sq_back :: "'a list \<Rightarrow> fault + 'a" where
  "sq_back q = (if q = [] then Inl EmptyFront else Inr (last q))"

definition sq_pop :: "'a list \<Rightarrow> fault + 'a list" where
  "sq_pop q = (case q of [] \<Rightarrow> Inl EmptyFront | _ # xs \<Rightarrow> Inr xs)"

definition bb_new_block :: "bbuffer \<Rightarrow> block" where
  "bb_new_block t = map (bb_uninit t (bb_allocs t)) [0..<bb_block_size t]"

definition bb_construct :: "nat \<Rightarrow> (nat \<Rightarrow> nat \<Rightarrow> char) \<Rightarrow> int \<Rightarrow> bbuffer" where
  "bb_construct pagesz u bs =
     (let t = \<lparr>bb_block_size = (if bs = - 1 then pagesz else to_size bs), bb_buf = [],
                bb_free_list = [], bb_preserved_list = [], bb_rpos = 0, bb_wpos = 0,
                bb_uninit = u, bb_allocs = 0\<rparr> in
      t\<lparr>bb_buf := [(Some (bb_new_block t), npos)], bb_allocs := 1\<rparr>)"

definition bb_add_block :: "bbuffer \<Rightarrow> fault + bbuffer" where
  "bb_add_block t =
     \<comment> \<open>\<^verbatim>\<open>buf_.back().second = wpos_; wpos_ = 0;\<close>\<close>
     bindF (sq_back (bb_buf t)) (\<lambda>seg.
     let t1 = t\<lparr>bb_buf := butlast (bb_buf t) @ [(fst seg, bb_wpos t)], bb_wpos := 0\<rparr> in
     if bb_free_list t1 = [] then
       Inr (t1\<lparr>bb_buf := bb_buf t1 @ [(Some (bb_new_block t1), npos)],
               bb_allocs := Suc (bb_allocs t1)\<rparr>)
     else
       bindF (sq_front (bb_free_list t1)) (\<lambda>blk.
       bindF (sq_pop (bb_free_list t1)) (\<lambda>fl.
       Inr (t1\<lparr>bb_buf := bb_buf t1 @ [(blk, npos)], bb_free_list := fl\<rparr>))))"

definition bb_add_block_if_needed :: "bbuffer \<Rightarrow> fault + bbuffer" where
  "bb_add_block_if_needed t =
     (if bb_wpos t = bb_block_size t then bb_add_block t else Inr t)"

definition bb_add_block_if_needed_cont :: "bbuffer \<Rightarrow> nat \<Rightarrow> fault + bbuffer" where
  "bb_add_block_if_needed_cont t cont_write_len =
     (if cont_write_len > sz_sub (bb_block_size t) (bb_wpos t) then bb_add_block t else Inr t)"

definition bb_copy_to_back :: "bbuffer \<Rightarrow> char list \<Rightarrow> fault + bbuffer" where
  "bb_copy_to_back t bytes =
     bindF (sq_back (bb_buf t)) (\<lambda>seg.
     if bytes = [] then Inr t
     else case fst seg of
       None \<Rightarrow> Inl NullDeref
     | Some blk \<Rightarrow>
         if bb_wpos t + length bytes \<le> length blk then
           Inr (t\<lparr>bb_buf := butlast (bb_buf t) @
                    [(Some (take (bb_wpos t) blk @ bytes @
                            drop (bb_wpos t + length bytes) blk), snd seg)]\<rparr>)
         else Inl OutOfBounds)"

function bb_write_loop :: "bbuffer \<Rightarrow> char list \<Rightarrow> fault + bbuffer" where
  "bb_write_loop t bytes =
     (if bytes = [] then Inr t
      else
        bindF (bb_add_block_if_needed t) (\<lambda>t1.
        let to_write = min (length bytes) (sz_sub (bb_block_size t1) (bb_wpos t1)) in
        bindF (bb_copy_to_back t1 (take to_write bytes)) (\<lambda>t2.
        if to_write = 0 then Inl Diverges
        else bb_write_loop (t2\<lparr>bb_wpos := sz_add (bb_wpos t2) to_write\<rparr>)
                           (drop to_write bytes))))"
  by pat_completeness auto
termination
  by (relation "measure (\<lambda>(t, bytes). length bytes)") auto

declare bb_write_loop.simps [simp del]

definition bb_write_range :: "bbuffer \<Rightarrow> char list \<Rightarrow> fault + bbuffer" where
  "bb_write_range t bytes = bb_write_loop t bytes"

definition bb_write_T :: "bbuffer \<Rightarrow> char list \<Rightarrow> fault + bbuffer" where
  "bb_write_T t rep = bb_write_range t rep"

definition bb_write_string :: "bbuffer \<Rightarrow> string \<Rightarrow> fault + bbuffer" where
  "bb_write_string t str =
     bindF (bb_write_T t (encode_size (length str))) (\<lambda>t1. bb_write_range t1 str)"

definition bb_pop_block :: "bbuffer \<Rightarrow> fault + bbuffer" where
  "bb_pop_block t =
     bindF (sq_front (bb_buf t)) (\<lambda>seg.
     bindF (sq_pop (bb_buf t)) (\<lambda>b.
     Inr (t\<lparr>bb_preserved_list := bb_preserved_list t @ [seg], bb_buf := b, bb_rpos := 0\<rparr>)))"

definition bb_pop_block_if_needed :: "bbuffer \<Rightarrow> nat \<Rightarrow> fault + bbuffer" where
  "bb_pop_block_if_needed t sz =
     bindF (sq_front (bb_buf t)) (\<lambda>seg.
     if snd seg \<noteq> npos \<and> sz_sub (snd seg) (bb_rpos t) < sz then bb_pop_block t else Inr t)"

definition bb_front_slice :: "bbuffer \<Rightarrow> nat \<Rightarrow> fault + char list" where
  "bb_front_slice t len =
     bindF (sq_front (bb_buf t)) (\<lambda>seg.
     case fst seg of
       None \<Rightarrow> Inl NullDeref
     | Some blk \<Rightarrow> if bb_rpos t + len \<le> length blk then Inr (take len (drop (bb_rpos t) blk))
                   else Inl OutOfBounds)"

definition bb_read_T :: "bbuffer \<Rightarrow> nat \<Rightarrow> fault + (char list \<times> bbuffer)" where
  "bb_read_T t sizeof_T =
     bindF (bb_pop_block_if_needed t sizeof_T) (\<lambda>t1.
     bindF (bb_front_slice t1 sizeof_T) (\<lambda>res.
     Inr (res, t1\<lparr>bb_rpos := sz_add (bb_rpos t1) sizeof_T\<rparr>)))"

definition bb_get_string :: "bbuffer \<Rightarrow> fault + (string \<times> bbuffer)" where
  "bb_get_string t =
     bindF (bb_read_T t 8) (\<lambda>(rep, t1).
     let len = decode_size rep in
     bindF (bb_pop_block_if_needed t1 len) (\<lambda>t2.
     bindF (bb_front_slice t2 len) (\<lambda>str.
     Inr (str, t2\<lparr>bb_rpos := sz_add (bb_rpos t2) len\<rparr>))))"

definition bb_write_cont_range :: "bbuffer \<Rightarrow> char list \<Rightarrow> fault + bbuffer" where
  "bb_write_cont_range t bytes =
     (if bytes = [] then Inr t
      else if \<not> length bytes \<le> bb_block_size t then Inl AssertFailed
      else
        bindF (bb_add_block_if_needed_cont t (length bytes)) (\<lambda>t1.
        bindF (bb_copy_to_back t1 bytes) (\<lambda>t2.
        Inr (t2\<lparr>bb_wpos := sz_add (bb_wpos t2) (length bytes)\<rparr>))))"

definition bb_write_cont_T :: "bbuffer \<Rightarrow> char list \<Rightarrow> fault + bbuffer" where
  "bb_write_cont_T t rep = bb_write_cont_range t rep"

definition bb_write_cont_string :: "bbuffer \<Rightarrow> string \<Rightarrow> fault + bbuffer" where
  "bb_write_cont_string t str =
     bindF (bb_write_cont_T t (encode_size (length str))) (\<lambda>t1. bb_write_cont_range t1 str)"

fun bb_input_loop :: "bbuffer \<Rightarrow> bool \<Rightarrow> int \<Rightarrow> rd list \<Rightarrow> fault + (int \<times> bbuffer \<times> rd list)" where
  "bb_input_loop t cont total_len [] = Inl NoResponse"
| "bb_input_loop t cont total_len (r # rs) =
     bindF (bb_add_block_if_needed t) (\<lambda>t1.
     let count = sz_sub (bb_block_size t1) (bb_wpos t1); len = fst r in
     if int count < len \<or> (0 < len \<and> int (length (snd r)) \<noteq> len) then Inl BadResponse
     else if len < 0 then
       (if total_len = 0 then Inr (len, t1, rs) else Inr (total_len, t1, rs))
     else if len = 0 then Inr (total_len, t1, rs)
     else
       bindF (bb_copy_to_back t1 (snd r)) (\<lambda>t2.
       let t3 = t2\<lparr>bb_wpos := sz_add (bb_wpos t2) (to_size len)\<rparr> in
       if cont then Inr (total_len + len, t3, rs)
       else bb_input_loop t3 cont (total_len + len) rs))"

definition bb_input_from_fd :: "bbuffer \<Rightarrow> bool \<Rightarrow> rd list \<Rightarrow> fault + (int \<times> bbuffer \<times> rd list)" where
  "bb_input_from_fd t cont rs = bb_input_loop t cont 0 rs"

fun bb_output_loop :: "bbuffer \<Rightarrow> int \<Rightarrow> int list \<Rightarrow> fault + (int \<times> bbuffer \<times> int list)" where
  "bb_output_loop t total_len [] = Inl NoResponse"
| "bb_output_loop t total_len (len # rs) =
     bindF (sq_front (bb_buf t)) (\<lambda>seg.
     let count = (if snd seg = npos then sz_sub (bb_wpos t) (bb_rpos t)
                  else sz_sub (snd seg) (bb_rpos t)) in
     if int count < len then Inl BadResponse
     else if len < 0 then
       (if total_len = 0 then Inr (len, t, rs) else Inr (total_len, t, rs))
     else if len = 0 then Inr (total_len, t, rs)
     else
       let t1 = t\<lparr>bb_rpos := sz_add (bb_rpos t) (to_size len)\<rparr> in
       if snd seg \<noteq> npos \<and> bb_rpos t1 = snd seg then
         bindF (sq_pop (bb_buf t1)) (\<lambda>b.
         let t2 = t1\<lparr>bb_preserved_list := bb_preserved_list t1 @ [seg], bb_buf := b,
                     bb_rpos := 0\<rparr> in
         if bb_buf t2 = [] then Inr (total_len + len, t2, rs)
         else bb_output_loop t2 (total_len + len) rs)
       else bb_output_loop t1 (total_len + len) rs)"

definition bb_output_to_fd :: "bbuffer \<Rightarrow> int list \<Rightarrow> fault + (int \<times> bbuffer \<times> int list)" where
  "bb_output_to_fd t rs = bb_output_loop t 0 rs"

definition bb_ensure_cont :: "bbuffer \<Rightarrow> nat \<Rightarrow> fault + (nat \<times> bbuffer)" where
  "bb_ensure_cont t sz =
     bindF (bb_add_block_if_needed_cont t sz) (\<lambda>t1.
     bindF (sq_back (bb_buf t1)) (\<lambda>_. Inr (bb_wpos t1, t1)))"

definition bb_empty :: "bbuffer \<Rightarrow> fault + bool" where
  "bb_empty t = bindF (sq_front (bb_buf t)) (\<lambda>seg.
                Inr (snd seg = npos \<and> bb_rpos t = bb_wpos t))"

text \<open>The loop of \<^verbatim>\<open>BlockBuffer::clear_preserved\<close>, on the preserved list and the free
  list: it reads \<^verbatim>\<open>preserved_list_.front()\<close> without asking whether the list is
  empty.\<close>

fun bb_clear_loop ::
  "segment list \<Rightarrow> block option list \<Rightarrow> nat \<Rightarrow> nat \<Rightarrow> fault + (segment list \<times> block option list)" where
  "bb_clear_loop [] fl len cleared_len = Inl EmptyFront"
| "bb_clear_loop (seg # pl) fl len cleared_len =
     (if sz_add (snd seg) cleared_len \<le> len then
        bb_clear_loop pl (fl @ [fst seg]) len (sz_add cleared_len (snd seg))
      else Inr (seg # pl, fl))"

definition bb_clear_preserved :: "bbuffer \<Rightarrow> nat \<Rightarrow> fault + bbuffer" where
  "bb_clear_preserved t len =
     bindF (bb_clear_loop (bb_preserved_list t) (bb_free_list t) len 0) (\<lambda>(pl, fl).
     Inr (t\<lparr>bb_preserved_list := pl, bb_free_list := fl\<rparr>))"

section \<open>Abstraction of the buffer's queues\<close>

text \<open>\<open>brep b w segs\<close>: the queue \<open>b\<close> is well formed and holds the segments \<open>segs\<close>, at
  least one, and the pointer \<open>w\<close> addresses the payload of its tail node.\<close>

definition brep :: "'a spsc_queue \<Rightarrow> addr option \<Rightarrow> 'a list \<Rightarrow> bool" where
  "brep b w segs = (\<exists>ms fs. q_rep b ms fs \<and> q_vals b ms = map Some segs \<and> segs \<noteq> [] \<and>
                      w = Some (last ms))"

text \<open>\<open>rep s segs pres frees\<close>: the three queues of the buffer are well formed, \<open>buf\<close>
  holds the segments \<open>segs\<close> (at least one) with \<open>wpos\<close> addressing its tail node,
  \<open>preserved_list\<close> holds \<open>pres\<close> and \<open>free_list\<close> holds \<open>frees\<close>.\<close>

definition rep :: "buffer \<Rightarrow> segment list \<Rightarrow> segment list \<Rightarrow> block option list \<Rightarrow> bool" where
  "rep s segs pres frees =
     (brep (buf s) (wpos s) segs \<and> q_holds (preserved_list s) pres \<and>
      q_holds (free_list s) frees)"

text \<open>\<open>clear_count pres len c\<close>: how many segments at the front of \<open>pres\<close> have their
  lengths, added to \<open>c\<close> one after the other as \<^verbatim>\<open>size_t\<close>, stay at most \<open>len\<close>.\<close>

fun clear_count :: "segment list \<Rightarrow> nat \<Rightarrow> nat \<Rightarrow> nat" where
  "clear_count [] len c = 0"
| "clear_count (seg # pl) len c =
     (if sz_add (snd seg) c \<le> len then Suc (clear_count pl len (sz_add c (snd seg))) else 0)"

text \<open>The invariant of the buffer: the queues are well formed, \<open>buf\<close> holds a segment,
  \<open>wpos\<close> addresses the tail node, and there is more than one segment whenever
  \<open>one_block_left\<close> is false.\<close>

definition buf_inv :: "buffer \<Rightarrow> bool" where
  "buf_inv s = (\<exists>segs pres frees. rep s segs pres frees \<and>
                  (\<not> one_block_left s \<longrightarrow> 1 < length segs))"

text \<open>
  The states a single thread reaches: \<open>init\<close> on the default-constructed buffer, then
  any public member function of \<^verbatim>\<open>SPSCBlockBufferBase<0>\<close> with any arguments (and any
  script of system-call results), whenever the call returns.  \<^verbatim>\<open>get_eventfd()\<close> only
  reads a field that mode 0 never sets.
\<close>

inductive reachable :: "buffer \<Rightarrow> bool" where
  r_construct: "init pagesz (unset u) bs = Inr s \<Longrightarrow> reachable s"
| r_init: "reachable s \<Longrightarrow> init pagesz s bs = Inr s' \<Longrightarrow> reachable s'"
| r_write_range: "reachable s \<Longrightarrow> write_range s bytes n = Inr s' \<Longrightarrow> reachable s'"
| r_write_T: "reachable s \<Longrightarrow> write_T s bytes n = Inr s' \<Longrightarrow> reachable s'"
| r_write_string: "reachable s \<Longrightarrow> write_string s str n = Inr s' \<Longrightarrow> reachable s'"
| r_read_T: "reachable s \<Longrightarrow> read_T s k = Inr (res, s') \<Longrightarrow> reachable s'"
| r_get_T: "reachable s \<Longrightarrow> get_T s k = Inr (res, s') \<Longrightarrow> reachable s'"
| r_read_cont: "reachable s \<Longrightarrow> read_cont s k = Inr (res, s') \<Longrightarrow> reachable s'"
| r_get_cont: "reachable s \<Longrightarrow> get_cont s k = Inr (res, s') \<Longrightarrow> reachable s'"
| r_get_string: "reachable s \<Longrightarrow> get_string s = Inr (str, s') \<Longrightarrow> reachable s'"
| r_write_cont_range: "reachable s \<Longrightarrow> write_cont_range s bytes n = Inr s' \<Longrightarrow> reachable s'"
| r_write_cont_T: "reachable s \<Longrightarrow> write_cont_T s bytes n = Inr s' \<Longrightarrow> reachable s'"
| r_write_cont_string: "reachable s \<Longrightarrow> write_cont_string s str n = Inr s' \<Longrightarrow> reachable s'"
| r_input_from_fd: "reachable s \<Longrightarrow> input_from_fd s cont max_len rs = Inr (ret, s', rest) \<Longrightarrow> reachable s'"
| r_output_to_fd: "reachable s \<Longrightarrow> output_to_fd s ws = Inr (ret, s', rest') \<Longrightarrow> reachable s'"
| r_notify: "reachable s \<Longrightarrow> notify s = Inr s' \<Longrightarrow> reachable s'"
| r_ensure_cont: "reachable s \<Longrightarrow> ensure_cont s k = Inr (p, s') \<Longrightarrow> reachable s'"
| r_empty: "reachable s \<Longrightarrow> empty s = Inr (e, s') \<Longrightarrow> reachable s'"
| r_clear_preserved: "reachable s \<Longrightarrow> clear_preserved s k = Inr s' \<Longrightarrow> reachable s'"


section \<open>The buffer seen through its queues\<close>

text \<open>
  A \<open>view\<close> is what a buffer state holds once the three queues are read off as lists:
  \<open>sees s v\<close> says that the queues of \<open>s\<close> are well formed and hold the lists of \<open>v\<close>,
  and that the other fields agree.  Each \<open>v_\<close> function below is the member function
  of the same name computed on a view; the facts \<open>sim\<close> say that the member function
  on a state that \<open>sees\<close> a view does what the \<open>v_\<close> function does on the view,
  fault for fault.
\<close>

record view =
  v_block_size :: nat
  v_segs :: "segment list"
  v_pres :: "segment list"
  v_frees :: "block option list"
  v_rpos :: nat
  v_wpos_private :: nat
  v_one_block_left :: bool
  v_uninit :: "nat \<Rightarrow> nat \<Rightarrow> char"
  v_allocs :: nat

definition sees :: "buffer \<Rightarrow> view \<Rightarrow> bool" where
  "sees s v = (rep s (v_segs v) (v_pres v) (v_frees v) \<and>
     block_size s = v_block_size v \<and> rpos s = v_rpos v \<and>
     wpos_private s = v_wpos_private v \<and> one_block_left s = v_one_block_left v \<and>
     uninit s = v_uninit v \<and> allocs s = v_allocs v)"

definition rel_res :: "('a \<Rightarrow> 'b \<Rightarrow> bool) \<Rightarrow> fault + 'a \<Rightarrow> fault + 'b \<Rightarrow> bool" where
  "rel_res P m m' = (case m' of Inl e \<Rightarrow> m = Inl e
                     | Inr y \<Rightarrow> (\<exists>x. m = Inr x \<and> P x y))"

definition sim :: "fault + buffer \<Rightarrow> fault + view \<Rightarrow> bool" where
  "sim = rel_res sees"

definition simr :: "fault + ('r \<times> buffer) \<Rightarrow> fault + ('r \<times> view) \<Rightarrow> bool" where
  "simr = rel_res (\<lambda>x y. fst x = fst y \<and> sees (snd x) (snd y))"

definition v_new_block :: "view \<Rightarrow> block" where
  "v_new_block v = map (v_uninit v (v_allocs v)) [0..<v_block_size v]"

definition v_notify :: "view \<Rightarrow> view" where
  "v_notify v = v\<lparr>v_segs := butlast (v_segs v) @ [(fst (last (v_segs v)), v_wpos_private v)]\<rparr>"

definition v_add_block :: "view \<Rightarrow> view" where
  "v_add_block v =
     v\<lparr>v_segs := butlast (v_segs v) @
          [(fst (last (v_segs v)), v_wpos_private v),
           (if v_frees v = [] then Some (v_new_block v) else hd (v_frees v), 0)],
        v_frees := tl (v_frees v),
        v_wpos_private := 0,
        v_allocs := (if v_frees v = [] then Suc (v_allocs v) else v_allocs v)\<rparr>"

definition v_add_block_if_needed :: "view \<Rightarrow> view" where
  "v_add_block_if_needed v =
     (if v_wpos_private v = v_block_size v then v_add_block v else v)"

definition v_add_block_if_needed_cont :: "view \<Rightarrow> nat \<Rightarrow> view" where
  "v_add_block_if_needed_cont v cont_write_len =
     (if cont_write_len > sz_sub (v_block_size v) (v_wpos_private v) then v_add_block v else v)"

definition v_copy_to_back :: "view \<Rightarrow> char list \<Rightarrow> fault + view" where
  "v_copy_to_back v bytes =
     (if bytes = [] then Inr v
      else case fst (last (v_segs v)) of
        None \<Rightarrow> Inl NullDeref
      | Some blk \<Rightarrow>
          if v_wpos_private v + length bytes \<le> length blk then
            Inr (v\<lparr>v_segs := butlast (v_segs v) @
                   [(Some (take (v_wpos_private v) blk @ bytes @
                           drop (v_wpos_private v + length bytes) blk),
                     snd (last (v_segs v)))]\<rparr>)
          else Inl OutOfBounds)"

function v_write_loop :: "view \<Rightarrow> char list \<Rightarrow> fault + view" where
  "v_write_loop v bytes =
     (if bytes = [] then Inr v
      else
        let v1 = v_add_block_if_needed v;
            to_write = min (length bytes) (sz_sub (v_block_size v1) (v_wpos_private v1)) in
        bindF (v_copy_to_back v1 (take to_write bytes)) (\<lambda>v2.
        if to_write = 0 then Inl Diverges
        else v_write_loop (v2\<lparr>v_wpos_private := sz_add (v_wpos_private v2) to_write\<rparr>)
                          (drop to_write bytes)))"
  by pat_completeness auto
termination
  by (relation "measure (\<lambda>(v, bytes). length bytes)") auto

declare v_write_loop.simps [simp del]

definition v_write_range :: "view \<Rightarrow> char list \<Rightarrow> bool \<Rightarrow> fault + view" where
  "v_write_range v bytes do_notify =
     bindF (v_write_loop v bytes) (\<lambda>v1. Inr (if do_notify then v_notify v1 else v1))"

definition v_write_string :: "view \<Rightarrow> string \<Rightarrow> bool \<Rightarrow> fault + view" where
  "v_write_string v str do_notify =
     bindF (v_write_range v (encode_size (length str)) False) (\<lambda>v1.
     v_write_range v1 str do_notify)"

definition v_write_cont_range :: "view \<Rightarrow> char list \<Rightarrow> bool \<Rightarrow> fault + view" where
  "v_write_cont_range v bytes do_notify =
     (if bytes = [] then Inr v
      else
        bindF (v_copy_to_back (v_add_block_if_needed_cont v (length bytes)) bytes) (\<lambda>v2.
        let v3 = v2\<lparr>v_wpos_private := sz_add (v_wpos_private v2) (length bytes)\<rparr> in
        Inr (if do_notify then v_notify v3 else v3)))"

definition v_write_cont_string :: "view \<Rightarrow> string \<Rightarrow> bool \<Rightarrow> fault + view" where
  "v_write_cont_string v str do_notify =
     bindF (v_write_cont_range v (encode_size (length str)) False) (\<lambda>v1.
     v_write_cont_range v1 str do_notify)"

definition v_pop_block :: "view \<Rightarrow> fault + view" where
  "v_pop_block v =
     (case v_segs v of
        x # y # rest \<Rightarrow>
          Inr (v\<lparr>v_segs := y # rest, v_pres := v_pres v @ [x], v_rpos := 0,
                 v_one_block_left := (rest = [])\<rparr>)
      | _ \<Rightarrow> Inl NullDeref)"

definition v_pop_block_if_needed :: "view \<Rightarrow> nat \<Rightarrow> fault + view" where
  "v_pop_block_if_needed v sz =
     (if v_one_block_left v then
        (if length (v_segs v) = 1 then Inr v
         else if sz_sub (snd (hd (v_segs v))) (v_rpos v) < sz then v_pop_block v else Inr v)
      else if sz_sub (snd (hd (v_segs v))) (v_rpos v) < sz then v_pop_block v else Inr v)"

definition v_front_slice :: "view \<Rightarrow> nat \<Rightarrow> fault + char list" where
  "v_front_slice v len =
     (case fst (hd (v_segs v)) of
        None \<Rightarrow> Inl NullDeref
      | Some blk \<Rightarrow> if v_rpos v + len \<le> length blk then Inr (take len (drop (v_rpos v) blk))
                    else Inl OutOfBounds)"

definition v_read_T :: "view \<Rightarrow> nat \<Rightarrow> fault + (char list \<times> view)" where
  "v_read_T v sizeof_T =
     bindF (v_pop_block_if_needed v sizeof_T) (\<lambda>v1.
     bindF (v_front_slice v1 sizeof_T) (\<lambda>res.
     Inr (res, v1\<lparr>v_rpos := sz_add (v_rpos v1) sizeof_T\<rparr>)))"

definition v_clear_preserved :: "view \<Rightarrow> nat \<Rightarrow> view" where
  "v_clear_preserved v len =
     v\<lparr>v_pres := drop (clear_count (v_pres v) len 0) (v_pres v),
        v_frees := v_frees v @ map fst (take (clear_count (v_pres v) len 0) (v_pres v))\<rparr>"

definition v_get_string :: "view \<Rightarrow> fault + (string \<times> view)" where
  "v_get_string v =
     bindF (v_read_T v 8) (\<lambda>(rep, v1).
     let len = decode_size rep in
     bindF (v_pop_block_if_needed v1 len) (\<lambda>v2.
     bindF (v_front_slice v2 len) (\<lambda>str.
     Inr (str, v_clear_preserved (v2\<lparr>v_rpos := sz_add (v_rpos v2) len\<rparr>) (sz_add 8 len)))))"

definition v_empty :: "view \<Rightarrow> bool \<times> view" where
  "v_empty v =
     (if \<not> v_one_block_left v then (False, v)
      else let v1 = v\<lparr>v_one_block_left := (length (v_segs v) = 1)\<rparr> in
           (length (v_segs v) = 1 \<and> v_rpos v = snd (last (v_segs v)), v1))"

definition v_ensure_cont :: "view \<Rightarrow> nat \<Rightarrow> nat \<times> view" where
  "v_ensure_cont v sz =
     (let v1 = v_add_block_if_needed_cont v sz in (v_wpos_private v1, v1))"

fun v_input_loop :: "view \<Rightarrow> bool \<Rightarrow> int \<Rightarrow> int \<Rightarrow> rd list \<Rightarrow> fault + (int \<times> view \<times> rd list)" where
  "v_input_loop v cont max_len total_len [] = Inl NoResponse"
| "v_input_loop v cont max_len total_len (r # rs) =
     (let v1 = v_add_block_if_needed v;
          room = sz_sub (v_block_size v1) (v_wpos_private v1);
          count = (if max_len = - 1 then room
                   else min (to_size (max_len - total_len)) room);
          len = fst r in
      if int count < len \<or> (0 < len \<and> int (length (snd r)) \<noteq> len) then Inl BadResponse
      else if len \<le> 0 then
        (if len < 0 \<and> total_len = 0 then Inr (len, v1, rs)
         else Inr (total_len, if total_len > 0 then v_notify v1 else v1, rs))
      else
        bindF (v_copy_to_back v1 (snd r)) (\<lambda>v2.
        let v3 = v2\<lparr>v_wpos_private := sz_add (v_wpos_private v2) (to_size len)\<rparr> in
        if cont then
          Inr (total_len + len, if total_len + len > 0 then v_notify v3 else v3, rs)
        else v_input_loop v3 cont max_len (total_len + len) rs))"

text \<open>A view is well formed when the sizes are \<^verbatim>\<open>size_t\<close> values, the write position
  lies within the block, and every segment and every free-list entry owns a block of
  \<open>block_size\<close> bytes.\<close>

definition v_wf :: "view \<Rightarrow> bool" where
  "v_wf v = (v_segs v \<noteq> [] \<and> v_block_size v < 2 ^ 64 \<and>
     v_wpos_private v \<le> v_block_size v \<and>
     (\<forall>seg\<in>set (v_segs v). \<exists>blk. fst seg = Some blk \<and> length blk = v_block_size v) \<and>
     (\<forall>f\<in>set (v_frees v). \<exists>blk. f = Some blk \<and> length blk = v_block_size v))"

text \<open>The block the next segment gets: a recycled one if there is one, else a new one.\<close>

definition v_next_block :: "view \<Rightarrow> block" where
  "v_next_block v = (if v_frees v = [] then v_new_block v else the (hd (v_frees v)))"

text \<open>\<open>overlay blk at bytes\<close> is \<open>blk\<close> with \<open>bytes\<close> copied in from offset \<open>at\<close>.\<close>

definition overlay :: "block \<Rightarrow> nat \<Rightarrow> char list \<Rightarrow> block" where
  "overlay blk at bytes = take at blk @ bytes @ drop (at + length bytes) blk"

section \<open>The two buffers side by side\<close>

text \<open>\<open>bb_of v\<close> is the \<^verbatim>\<open>BlockBuffer\<close> that holds what the view \<open>v\<close> of an SPSC buffer
  holds: the same blocks, positions and lists, with the end of the tail segment replaced
  by the mark \<open>npos\<close>.\<close>

definition bb_of :: "view \<Rightarrow> bbuffer" where
  "bb_of v = \<lparr>bb_block_size = v_block_size v,
              bb_buf = butlast (v_segs v) @ [(fst (last (v_segs v)), npos)],
              bb_free_list = v_frees v, bb_preserved_list = v_pres v,
              bb_rpos = v_rpos v, bb_wpos = v_wpos_private v,
              bb_uninit = v_uninit v, bb_allocs = v_allocs v\<rparr>"

text \<open>\<open>v_ok\<close>: a well-formed view whose block size is below \<open>npos\<close>, whose closed segments
  end within the block, and that has more than one segment when \<open>one_block_left\<close> is
  unset.  \<open>v_published\<close>: the end of the tail segment has been stored.\<close>

definition v_ok :: "view \<Rightarrow> bool" where
  "v_ok v = (v_wf v \<and> v_block_size v < npos \<and>
     (\<forall>seg\<in>set (butlast (v_segs v)). snd seg \<le> v_block_size v) \<and>
     (\<not> v_one_block_left v \<longrightarrow> 1 < length (v_segs v)))"

definition v_published :: "view \<Rightarrow> bool" where
  "v_published v = (snd (last (v_segs v)) = v_wpos_private v)"

text \<open>Results of the two buffers: \<open>lift_bb\<close> maps a result on views to one on
  \<^verbatim>\<open>BlockBuffer\<close>s; \<open>twin_res\<close> holds when both fail or both return twin states.\<close>

definition lift_bb :: "fault + view \<Rightarrow> fault + bbuffer" where
  "lift_bb m = (case m of Inl e \<Rightarrow> Inl e | Inr v \<Rightarrow> Inr (bb_of v))"

definition twin_res :: "fault + view \<Rightarrow> fault + bbuffer \<Rightarrow> bool" where
  "twin_res m m' = (case m of Inl _ \<Rightarrow> (\<exists>e. m' = Inl e)
                    | Inr v \<Rightarrow> m' = Inr (bb_of v) \<and> v_ok v \<and> v_published v)"

text \<open>
  The member functions both classes have, called with the arguments both accept: the
  \<^verbatim>\<open>notify\<close> parameters of the SPSC buffer keep their default \<^verbatim>\<open>true\<close>, \<^verbatim>\<open>max_len\<close> its
  default \<open>-1\<close>.  \<open>step\<close> and \<open>bb_step\<close> run one call and give the value it returns:
  nothing, the bytes a returned pointer addresses, the offset of a returned pointer in the
  tail block, a truth value, or a length with the rest of the script of the file
  descriptor.  \<open>trace\<close> and \<open>bb_trace\<close> run a list of calls and give the values returned,
  with \<open>None\<close> for a call that faults, which ends the run.
\<close>

datatype op = Write_range "char list" | Write_T "char list" | Write_string string
  | Write_cont_range "char list" | Write_cont_T "char list" | Write_cont_string string
  | Read_T nat | Ensure_cont nat | Empty | Input_from_fd bool "rd list"

datatype ret = R_void | R_bytes "char list" | R_offset nat | R_bool bool | R_len int "rd list"

fun step :: "buffer \<Rightarrow> op \<Rightarrow> fault + (ret \<times> buffer)" where
  "step s (Write_range bytes) = bindF (write_range s bytes True) (\<lambda>s'. Inr (R_void, s'))"
| "step s (Write_T rp) = bindF (write_T s rp True) (\<lambda>s'. Inr (R_void, s'))"
| "step s (Write_string str) = bindF (write_string s str True) (\<lambda>s'. Inr (R_void, s'))"
| "step s (Write_cont_range bytes) =
     bindF (write_cont_range s bytes True) (\<lambda>s'. Inr (R_void, s'))"
| "step s (Write_cont_T rp) = bindF (write_cont_T s rp True) (\<lambda>s'. Inr (R_void, s'))"
| "step s (Write_cont_string str) =
     bindF (write_cont_string s str True) (\<lambda>s'. Inr (R_void, s'))"
| "step s (Read_T k) = bindF (read_T s k) (\<lambda>x. Inr (R_bytes (fst x), snd x))"
| "step s (Ensure_cont k) = bindF (ensure_cont s k) (\<lambda>x. Inr (R_offset (snd (fst x)), snd x))"
| "step s Empty = bindF (empty s) (\<lambda>x. Inr (R_bool (fst x), snd x))"
| "step s (Input_from_fd cont rs) =
     bindF (input_from_fd s cont (- 1) rs) (\<lambda>x. Inr (R_len (fst x) (snd (snd x)), fst (snd x)))"

fun bb_step :: "bbuffer \<Rightarrow> op \<Rightarrow> fault + (ret \<times> bbuffer)" where
  "bb_step t (Write_range bytes) = bindF (bb_write_range t bytes) (\<lambda>t'. Inr (R_void, t'))"
| "bb_step t (Write_T rp) = bindF (bb_write_T t rp) (\<lambda>t'. Inr (R_void, t'))"
| "bb_step t (Write_string str) = bindF (bb_write_string t str) (\<lambda>t'. Inr (R_void, t'))"
| "bb_step t (Write_cont_range bytes) =
     bindF (bb_write_cont_range t bytes) (\<lambda>t'. Inr (R_void, t'))"
| "bb_step t (Write_cont_T rp) = bindF (bb_write_cont_T t rp) (\<lambda>t'. Inr (R_void, t'))"
| "bb_step t (Write_cont_string str) =
     bindF (bb_write_cont_string t str) (\<lambda>t'. Inr (R_void, t'))"
| "bb_step t (Read_T k) = bindF (bb_read_T t k) (\<lambda>x. Inr (R_bytes (fst x), snd x))"
| "bb_step t (Ensure_cont k) = bindF (bb_ensure_cont t k) (\<lambda>x. Inr (R_offset (fst x), snd x))"
| "bb_step t Empty = bindF (bb_empty t) (\<lambda>b. Inr (R_bool b, t))"
| "bb_step t (Input_from_fd cont rs) =
     bindF (bb_input_from_fd t cont rs) (\<lambda>x. Inr (R_len (fst x) (snd (snd x)), fst (snd x)))"

fun trace :: "buffer \<Rightarrow> op list \<Rightarrow> ret option list" where
  "trace s [] = []"
| "trace s (c # cs) = (case step s c of Inl e \<Rightarrow> [None]
                       | Inr x \<Rightarrow> Some (fst x) # trace (snd x) cs)"

fun bb_trace :: "bbuffer \<Rightarrow> op list \<Rightarrow> ret option list" where
  "bb_trace t [] = []"
| "bb_trace t (c # cs) = (case bb_step t c of Inl e \<Rightarrow> [None]
                          | Inr x \<Rightarrow> Some (fst x) # bb_trace (snd x) cs)"

text \<open>\<open>same s t\<close>: the SPSC buffer \<open>s\<close> and the \<^verbatim>\<open>BlockBuffer\<close> \<open>t\<close> hold the same data.\<close>

definition same :: "buffer \<Rightarrow> bbuffer \<Rightarrow> bool" where
  "same s t = (\<exists>v. sees s v \<and> v_ok v \<and> v_published v \<and> t = bb_of v)"

definition agree :: "fault + (ret \<times> buffer) \<Rightarrow> fault + (ret \<times> bbuffer) \<Rightarrow> bool" where
  "agree m m' = (case m of Inl _ \<Rightarrow> (\<exists>e. m' = Inl e)
                 | Inr x \<Rightarrow> (\<exists>t'. m' = Inr (fst x, t') \<and> same (snd x) t'))"


section \<open>Example states\<close>

text \<open>States of a buffer with 4-byte blocks whose fresh memory holds dots: \<open>ex_one\<close>
  after \<open>init\<close>, \<open>ex_two\<close> after writing \<open>abcdef\<close>, \<open>ex_three\<close> after writing \<open>abcdefghij\<close>
  and reading four bytes, \<open>ex_behind\<close> after reading four more.\<close>

definition gar :: "nat \<Rightarrow> nat \<Rightarrow> char" where "gar k j = CHR ''.''"

definition ex_one :: buffer where
  "ex_one = \<lparr>block_size = 4,
        buf = \<lparr>heap = [\<lparr>obj = Some (None, 0), nxt = Some 2\<rparr>,
                       \<lparr>obj = Some (None, 0), nxt = None\<rparr>,
                       \<lparr>obj = Some (Some ''....'', 0), nxt = None\<rparr>],
               head = Some 0, tail = Some 2, free_head = Some 1, free_tail = Some 1\<rparr>,
        free_list = q_init None,
        preserved_list = q_init (None, 0),
        rpos = 0, wpos = Some 2, wpos_private = 0, one_block_left = True,
        uninit = gar, allocs = 1\<rparr>"

definition ex_two :: buffer where
  "ex_two = \<lparr>block_size = 4,
        buf = \<lparr>heap = [\<lparr>obj = Some (None, 0), nxt = Some 2\<rparr>,
                       \<lparr>obj = Some (None, 0), nxt = None\<rparr>,
                       \<lparr>obj = Some (Some ''abcd'', 4), nxt = Some 3\<rparr>,
                       \<lparr>obj = Some (Some ''ef..'', 2), nxt = None\<rparr>],
               head = Some 0, tail = Some 3, free_head = Some 1, free_tail = Some 1\<rparr>,
        free_list = q_init None,
        preserved_list = q_init (None, 0),
        rpos = 0, wpos = Some 3, wpos_private = 2, one_block_left = True,
        uninit = gar, allocs = 2\<rparr>"

definition ex_three :: buffer where
  "ex_three = \<lparr>block_size = 4,
        buf = \<lparr>heap = [\<lparr>obj = Some (None, 0), nxt = Some 2\<rparr>,
                       \<lparr>obj = Some (None, 0), nxt = None\<rparr>,
                       \<lparr>obj = Some (Some ''abcd'', 4), nxt = Some 3\<rparr>,
                       \<lparr>obj = Some (Some ''efgh'', 4), nxt = Some 4\<rparr>,
                       \<lparr>obj = Some (Some ''ij..'', 2), nxt = None\<rparr>],
               head = Some 0, tail = Some 4, free_head = Some 1, free_tail = Some 1\<rparr>,
        free_list = q_init None,
        preserved_list = q_init (None, 0),
        rpos = 4, wpos = Some 4, wpos_private = 2, one_block_left = True,
        uninit = gar, allocs = 3\<rparr>"

definition ex_behind :: buffer where
  "ex_behind = \<lparr>block_size = 4,
        buf = \<lparr>heap = [\<lparr>obj = None, nxt = None\<rparr>,
                       \<lparr>obj = Some (None, 0), nxt = Some 0\<rparr>,
                       \<lparr>obj = Some (None, 4), nxt = Some 3\<rparr>,
                       \<lparr>obj = Some (Some ''efgh'', 4), nxt = Some 4\<rparr>,
                       \<lparr>obj = Some (Some ''ij..'', 2), nxt = None\<rparr>],
               head = Some 2, tail = Some 4, free_head = Some 1, free_tail = Some 0\<rparr>,
        free_list = q_init None,
        preserved_list =
          \<lparr>heap = [\<lparr>obj = Some (None, 0), nxt = Some 2\<rparr>,
                   \<lparr>obj = Some (None, 0), nxt = None\<rparr>,
                   \<lparr>obj = Some (Some ''abcd'', 4), nxt = None\<rparr>],
           head = Some 0, tail = Some 2, free_head = Some 1, free_tail = Some 1\<rparr>,
        rpos = 4, wpos = Some 4, wpos_private = 2, one_block_left = False,
        uninit = gar, allocs = 3\<rparr>"

text \<open>\<open>ex_ab\<close>: two bytes read from a file descriptor into \<open>ex_one\<close>.\<close>

definition ex_ab :: buffer where
  "ex_ab = \<lparr>block_size = 4,
        buf = \<lparr>heap = [\<lparr>obj = Some (None, 0), nxt = Some 2\<rparr>,
                       \<lparr>obj = Some (None, 0), nxt = None\<rparr>,
                       \<lparr>obj = Some (Some ''ab..'', 2), nxt = None\<rparr>],
               head = Some 0, tail = Some 2, free_head = Some 1, free_tail = Some 1\<rparr>,
        free_list = q_init None,
        preserved_list = q_init (None, 0),
        rpos = 0, wpos = Some 2, wpos_private = 2, one_block_left = True,
        uninit = gar, allocs = 1\<rparr>"

definition v_ab :: view where
  "v_ab = \<lparr>v_block_size = 4, v_segs = [(Some ''ab..'', 2)], v_pres = [], v_frees = [],
           v_rpos = 0, v_wpos_private = 2, v_one_block_left = True, v_uninit = gar,
           v_allocs = 1\<rparr>"

text \<open>A buffer with 16-byte blocks as \<open>init\<close> leaves it, and after a ten-byte string has
  been written to it: the last two bytes of the string lie in a second block.\<close>

definition v_sixteen :: view where
  "v_sixteen = \<lparr>v_block_size = 16, v_segs = [(Some ''................'', 0)],
             v_pres = [], v_frees = [], v_rpos = 0, v_wpos_private = 0,
             v_one_block_left = True, v_uninit = gar, v_allocs = 1\<rparr>"

definition v_straddle :: view where
  "v_straddle = v_sixteen\<lparr>v_segs :=
      [(Some ([CHR 0x0A, CHR 0x00, CHR 0x00, CHR 0x00, CHR 0x00, CHR 0x00, CHR 0x00, CHR 0x00] @ ''01234567''), 16),
       (Some ''89..............'', 2)], v_wpos_private := 2, v_allocs := 2\<rparr>"

definition v_hidden :: view where
  "v_hidden = v_sixteen\<lparr>v_segs :=
      [(Some ([CHR 0x00, CHR 0x00, CHR 0x00, CHR 0x00, CHR 0x00, CHR 0x00, CHR 0x00, CHR 0x00]
              @ ''........''), 0)], v_wpos_private := 8\<rparr>"

text \<open>\<open>v_shown\<close>: the 16-byte buffer after \<^verbatim>\<open>write\<close> of the empty string, whose length
  prefix has been published.\<close>

definition v_shown :: view where
  "v_shown = v_sixteen\<lparr>v_segs :=
      [(Some ([CHR 0x00, CHR 0x00, CHR 0x00, CHR 0x00, CHR 0x00, CHR 0x00, CHR 0x00, CHR 0x00]
              @ ''........''), 8)], v_wpos_private := 8\<rparr>"

text \<open>A queue of numbers holding 7 and 9.\<close>

definition two_queue :: "nat spsc_queue" where
  "two_queue = \<lparr>heap = [\<lparr>obj = Some 0, nxt = Some 2\<rparr>, \<lparr>obj = Some 0, nxt = None\<rparr>,
                        \<lparr>obj = Some 7, nxt = Some 3\<rparr>, \<lparr>obj = Some 9, nxt = None\<rparr>],
               head = Some 0, tail = Some 3, free_head = Some 1, free_tail = Some 1\<rparr>"

section \<open>Facts about the queue\<close>

subsection \<open>Faults, loads and stores\<close>

lemma bindF_Inr [simp]: "bindF (Inr x) f = f x"
  by (simp add: bindF_def)

lemma bindF_Inl [simp]: "bindF (Inl e) f = Inl e"
  by (simp add: bindF_def)

lemma bindF_eq_Inr: "bindF m f = Inr y \<longleftrightarrow> (\<exists>x. m = Inr x \<and> f x = Inr y)"
  by (cases m) simp_all

lemma load_Some [simp]: "a < length h \<Longrightarrow> load h (Some a) = Inr (h ! a)"
  by (simp add: load_def)

lemma store_Some [simp]: "a < length h \<Longrightarrow> store h (Some a) f = Inr (h[a := f (h ! a)])"
  by (simp add: store_def)

lemma chain_bound: "chain h p as \<Longrightarrow> a \<in> set as \<Longrightarrow> a < length h"
  by (induction as arbitrary: p) auto

lemma chain_upd: "chain h p as \<Longrightarrow> a \<notin> set as \<Longrightarrow> chain (h[a := n]) p as"
  by (induction as arbitrary: p) auto

lemma nxt_obj_upd: "b < length h \<Longrightarrow> nxt (h[a := (h ! a)\<lparr>obj := v\<rparr>] ! b) = nxt (h ! b)"
  by (cases "a = b") simp_all

lemma chain_obj_upd: "chain h p as \<Longrightarrow> chain (h[a := (h ! a)\<lparr>obj := v\<rparr>]) p as"
  by (induction as arbitrary: p) (simp_all add: nxt_obj_upd)

lemma chain_grow: "chain h p as \<Longrightarrow> chain (h @ h') p as"
  by (induction as arbitrary: p) (auto simp: nth_append)

lemma chain_last_nxt: "chain h p as \<Longrightarrow> as \<noteq> [] \<Longrightarrow> nxt (h ! last as) = None"
  by (induction as arbitrary: p) (auto split: if_splits)

lemma chain_snoc:
  "chain h p as \<Longrightarrow> as \<noteq> [] \<Longrightarrow> distinct as \<Longrightarrow> c \<notin> set as \<Longrightarrow> c < length h \<Longrightarrow>
   nxt (h ! c) = None \<Longrightarrow>
   chain (h[last as := (h ! last as)\<lparr>nxt := Some c\<rparr>]) p (as @ [c])"
proof (induction as arbitrary: p)
  case Nil
  then show ?case by simp
next
  case (Cons a as)
  show ?case
  proof (cases "as = []")
    case True
    with Cons.prems show ?thesis by (auto simp: nth_list_update)
  next
    case False
    with Cons.prems have "a \<noteq> last as" by auto
    with False Cons show ?thesis by (auto simp: nth_list_update)
  qed
qed

lemma chain_unique: "chain h p as \<Longrightarrow> chain h p bs \<Longrightarrow> as = bs"
proof (induction as arbitrary: p bs)
  case Nil then show ?case by (cases bs) auto
next
  case (Cons a as) then show ?case by (cases bs) auto
qed

subsection \<open>What the queue operations do to a well-formed queue\<close>

lemma q_rep_head: "q_rep q ms fs \<Longrightarrow> head q = Some (hd ms)"
  by (cases ms) (auto simp: q_rep_def)

lemma q_rep_free_head: "q_rep q ms fs \<Longrightarrow> free_head q = Some (hd fs)"
  by (cases fs) (auto simp: q_rep_def)

lemma hd_eq_last_distinct: "distinct xs \<Longrightarrow> xs \<noteq> [] \<Longrightarrow> hd xs = last xs \<longleftrightarrow> length xs = 1"
  by (cases xs) (auto split: if_splits)

lemma q_empty_rep:
  assumes "q_rep q ms fs"
  shows "q_empty q \<longleftrightarrow> length ms = 1"
proof -
  have "head q = Some (hd ms)" "tail q = Some (last ms)" "distinct ms" "ms \<noteq> []"
    using assms q_rep_head[OF assms] by (auto simp: q_rep_def)
  then show ?thesis using hd_eq_last_distinct[of ms] by (simp add: q_empty_def)
qed

lemma free_list_empty_rep:
  assumes "q_rep q ms fs"
  shows "free_list_empty q \<longleftrightarrow> length fs = 1"
proof -
  have "free_head q = Some (hd fs)" "free_tail q = Some (last fs)" "distinct fs" "fs \<noteq> []"
    using assms q_rep_free_head[OF assms] by (auto simp: q_rep_def)
  then show ?thesis using hd_eq_last_distinct[of fs] by (simp add: free_list_empty_def)
qed

lemma front_ref_rep: "q_rep q (m0 # m1 # ms) fs \<Longrightarrow> front_ref q = Inr m1"
  by (auto simp: q_rep_def front_ref_def)

lemma back_ref_rep: "q_rep q ms fs \<Longrightarrow> back_ref q = Inr (last ms)"
  by (auto simp: q_rep_def back_ref_def dest: chain_bound[where a="last ms"])

lemma q_push_fresh:
  assumes "q_rep q ms fs" "free_list_empty q"
  shows "\<exists>q'. q_push q x = Inr q' \<and> q_rep q' (ms @ [length (heap q)]) fs \<and>
          head q' = head q \<and> free_head q' = free_head q \<and> free_tail q' = free_tail q \<and>
          heap q' = (heap q @ [\<lparr>obj = Some x, nxt = None\<rparr>])
                       [last ms := (heap q ! last ms)\<lparr>nxt := Some (length (heap q))\<rparr>]"
proof -
  let ?h = "heap q" and ?n = "\<lparr>obj = Some x, nxt = None\<rparr>"
  let ?a = "length ?h"
  from assms(1) have c: "chain ?h (head q) ms" "ms \<noteq> []" "tail q = Some (last ms)"
    "chain ?h (free_head q) fs" "fs \<noteq> []" "free_tail q = Some (last fs)" "distinct (ms @ fs)"
    by (auto simp: q_rep_def)
  have b: "\<And>a. a \<in> set ms \<union> set fs \<Longrightarrow> a < ?a"
    using c chain_bound by blast
  then have lb: "last ms < ?a" using c(2) by auto
  have fresh: "?a \<notin> set ms" "?a \<notin> set fs" using b by auto
  let ?h1 = "(?h @ [?n])[last ms := (?h ! last ms)\<lparr>nxt := Some ?a\<rparr>]"
  have s1: "store (?h @ [?n]) (tail q) (\<lambda>n. n\<lparr>nxt := Some ?a\<rparr>) = Inr ?h1"
    using lb c(3) by (simp add: nth_append)
  have l1: "load ?h1 (tail q) = Inr ((?h ! last ms)\<lparr>nxt := Some ?a\<rparr>)"
    using lb c(3) by simp
  have m: "chain ?h1 (head q) (ms @ [?a])"
    using chain_snoc[OF chain_grow[OF c(1), of "[?n]"] c(2) _ fresh(1), of ] c(7) lb
    by (simp add: nth_append)
  have "last ms \<in> set ms" using c(2) by simp
  then have "last ms \<notin> set fs" using c(7) by auto
  then have f: "chain ?h1 (free_head q) fs"
    using chain_upd[OF chain_grow[OF c(4), of "[?n]"]] by simp
  have "q_rep (q\<lparr>heap := ?h1, tail := Some ?a\<rparr>) (ms @ [?a]) fs"
    using m f c fresh by (simp add: q_rep_def)
  then show ?thesis
    using assms(2) s1 l1 by (simp add: q_push_def)
qed

lemma chain_snoc_node:
  assumes "chain h p as" "as \<noteq> []" "distinct as" "c \<notin> set as" "c < length h" "nxt n = None"
  shows "chain (h[last as := (h ! last as)\<lparr>nxt := Some c\<rparr>, c := n]) p (as @ [c])"
proof -
  let ?h0 = "h[c := n]"
  have l: "last as \<noteq> c" "last as \<in> set as" using assms(2,4) by auto
  have "chain ?h0 p as" using assms(1,4) by (rule chain_upd)
  moreover have "nxt (?h0 ! c) = None" using assms(5,6) by simp
  ultimately have "chain (?h0[last as := (?h0 ! last as)\<lparr>nxt := Some c\<rparr>]) p (as @ [c])"
    using assms(2,3,4,5) by (intro chain_snoc) simp_all
  moreover have "?h0 ! last as = h ! last as" using l by simp
  ultimately show ?thesis using l by (simp add: list_update_swap)
qed

lemma node_overwrite: "(n :: 'a node)\<lparr>obj := a, nxt := b\<rparr> = \<lparr>obj = a, nxt = b\<rparr>"
  by (cases n) simp

lemma q_push_recycle:
  assumes "q_rep q ms (f # f2 # fs)"
  shows "\<exists>q'. q_push q x = Inr q' \<and> q_rep q' (ms @ [f]) (f2 # fs) \<and>
          head q' = head q \<and> free_tail q' = free_tail q \<and>
          heap q' = (heap q)[last ms := (heap q ! last ms)\<lparr>nxt := Some f\<rparr>,
                             f := \<lparr>obj = Some x, nxt = None\<rparr>]"
proof -
  let ?h = "heap q" and ?n = "\<lparr>obj = Some x, nxt = None\<rparr>"
  let ?fs = "f # f2 # fs"
  from assms have c: "chain ?h (head q) ms" "ms \<noteq> []" "tail q = Some (last ms)"
    "chain ?h (free_head q) ?fs" "free_tail q = Some (last ?fs)" "distinct (ms @ ?fs)"
    by (auto simp: q_rep_def)
  have b: "\<And>a. a \<in> set ms \<union> set ?fs \<Longrightarrow> a < length ?h"
    using c chain_bound by blast
  have lm: "last ms \<in> set ms" using c(2) by simp
  then have lb: "last ms < length ?h" and fb: "f < length ?h" using b by auto
  have ne: "last ms \<noteq> f" "last ms \<noteq> f2" "last ms \<notin> set fs" "f \<notin> set ms" "f \<noteq> f2" "f \<notin> set fs"
    using lm c(6) by auto
  have fh: "free_head q = Some f" "nxt (?h ! f) = Some f2" "chain ?h (Some f2) (f2 # fs)"
    using c(4) by auto
  have nfe: "\<not> free_list_empty q"
    using free_list_empty_rep[OF assms] by simp
  let ?h1 = "?h[last ms := (?h ! last ms)\<lparr>nxt := Some f\<rparr>]"
  let ?h2 = "?h1[f := ?n]"
  have s1: "store ?h (tail q) (\<lambda>n. n\<lparr>nxt := free_head q\<rparr>) = Inr ?h1"
    using lb c(3) fh by simp
  have l1: "load ?h1 (free_head q) = Inr (?h ! f)"
    using fb fh ne by simp
  have l2: "load ?h1 (tail q) = Inr ((?h ! last ms)\<lparr>nxt := Some f\<rparr>)"
    using lb c(3) by simp
  have s2: "store ?h1 (Some f) (\<lambda>_. ?n) = Inr ?h2"
    using fb by simp
  have l3: "load ?h2 (tail q) = Inr ((?h ! last ms)\<lparr>nxt := Some f\<rparr>)"
    using lb c(3) ne by simp
  have m: "chain ?h2 (head q) (ms @ [f])"
    using c(1,2,6) ne fb by (intro chain_snoc_node) simp_all
  have fr: "chain ?h2 (Some f2) (f2 # fs)"
    using fh(3) ne by (intro chain_upd) auto
  have "q_rep (q\<lparr>heap := ?h2, free_head := Some f2, tail := Some f\<rparr>) (ms @ [f]) (f2 # fs)"
    using m fr c ne by (simp add: q_rep_def)
  then show ?thesis
    using nfe s1 l1 l2 s2 l3 fh by (simp add: q_push_def)
qed

lemma q_pop_rep:
  assumes "q_rep q (m0 # m1 # ms) fs"
  shows "\<exists>q'. q_pop q = Inr q' \<and> q_rep q' (m1 # ms) (fs @ [m0]) \<and>
          tail q' = tail q \<and> free_head q' = free_head q \<and>
          heap q' = (heap q)[last fs := (heap q ! last fs)\<lparr>nxt := Some m0\<rparr>,
                             m0 := \<lparr>obj = None, nxt = None\<rparr>]"
proof -
  let ?h = "heap q" and ?n = "\<lparr>obj = None, nxt = None\<rparr>"
  let ?ms = "m0 # m1 # ms"
  from assms have c: "chain ?h (head q) ?ms" "tail q = Some (last ?ms)"
    "chain ?h (free_head q) fs" "fs \<noteq> []" "free_tail q = Some (last fs)" "distinct (?ms @ fs)"
    by (auto simp: q_rep_def)
  have b: "\<And>a. a \<in> set ?ms \<union> set fs \<Longrightarrow> a < length ?h"
    using c chain_bound by blast
  have lf: "last fs \<in> set fs" using c(4) by simp
  then have lb: "last fs < length ?h" and mb: "m0 < length ?h" using b by auto
  have ne: "last fs \<noteq> m0" "last fs \<noteq> m1" "last fs \<notin> set ms" "m0 \<notin> set fs" "m0 \<noteq> m1" "m0 \<notin> set ms"
    using lf c(6) by auto
  have hd: "head q = Some m0" "nxt (?h ! m0) = Some m1" "chain ?h (Some m1) (m1 # ms)"
    using c(1) by auto
  let ?h1 = "?h[last fs := (?h ! last fs)\<lparr>nxt := Some m0\<rparr>]"
  let ?h2 = "?h1[m0 := (?h ! m0)\<lparr>obj := None\<rparr>]"
  let ?h3 = "?h1[m0 := ?n]"
  have s1: "store ?h (free_tail q) (\<lambda>n. n\<lparr>nxt := head q\<rparr>) = Inr ?h1"
    using lb c(5) hd by simp
  have l1: "load ?h1 (head q) = Inr (?h ! m0)"
    using mb hd ne by simp
  have l2: "load ?h1 (free_tail q) = Inr ((?h ! last fs)\<lparr>nxt := Some m0\<rparr>)"
    using lb c(5) by simp
  have s2: "store ?h1 (Some m0) (\<lambda>n. n\<lparr>obj := None\<rparr>) = Inr ?h2"
    using mb ne by simp
  have l3: "load ?h2 (free_tail q) = Inr ((?h ! last fs)\<lparr>nxt := Some m0\<rparr>)"
    using lb c(5) ne by simp
  have s3: "store ?h2 (Some m0) (\<lambda>n. n\<lparr>nxt := None\<rparr>) = Inr ?h3"
    using mb by (simp add: node_overwrite)
  have l4: "load ?h3 (free_tail q) = Inr ((?h ! last fs)\<lparr>nxt := Some m0\<rparr>)"
    using lb c(5) ne by simp
  have m: "chain ?h3 (Some m1) (m1 # ms)"
    using hd(3) ne by (intro chain_upd) auto
  have fr: "chain ?h3 (free_head q) (fs @ [m0])"
    using c(3,4,6) ne mb by (intro chain_snoc_node) simp_all
  have "q_rep (q\<lparr>heap := ?h3, head := Some m1, free_tail := Some m0\<rparr>) (m1 # ms) (fs @ [m0])"
    using m fr c ne by (simp add: q_rep_def)
  then show ?thesis
    using s1 l1 l2 s2 l3 s3 l4 hd by (simp add: q_pop_def)
qed

lemma obj_nxt_upd: "obj (h[a := (h ! a)\<lparr>nxt := v\<rparr>] ! b) = obj (h ! b)"
  by (cases "a = b"; cases "a < length h") (simp_all add: list_update_beyond)

lemma obj_nxt_upd_grow:
  "a < length h \<Longrightarrow> b < length h \<Longrightarrow>
   obj ((h @ h')[a := (h ! a)\<lparr>nxt := v\<rparr>] ! b) = obj (h ! b)"
  by (cases "a = b") (simp_all add: nth_append)

lemma q_push_rep:
  assumes "q_rep q ms fs"
  shows "\<exists>q' a. q_push q x = Inr q' \<and>
          q_rep q' (ms @ [a]) (if free_list_empty q then fs else tl fs) \<and>
          a = (if free_list_empty q then length (heap q) else hd fs) \<and>
          head q' = head q \<and> length (heap q) \<le> length (heap q') \<and>
          obj (heap q' ! a) = Some x \<and>
          (\<forall>b. b \<noteq> a \<longrightarrow> b < length (heap q) \<longrightarrow> obj (heap q' ! b) = obj (heap q ! b))"
proof (cases "free_list_empty q")
  case True
  from q_push_fresh[OF assms True, of x] obtain q' where
    q': "q_push q x = Inr q'" "q_rep q' (ms @ [length (heap q)]) fs" "head q' = head q"
      "heap q' = (heap q @ [\<lparr>obj = Some x, nxt = None\<rparr>])
                       [last ms := (heap q ! last ms)\<lparr>nxt := Some (length (heap q))\<rparr>]"
    by blast
  have "ms \<noteq> []" "chain (heap q) (head q) ms" using assms by (auto simp: q_rep_def)
  then have lb: "last ms < length (heap q)" using chain_bound[of _ _ ms "last ms"] by simp
  have "obj (heap q' ! length (heap q)) = Some x"
    using lb by (simp add: q'(4) nth_append)
  moreover have "\<forall>b. b \<noteq> length (heap q) \<longrightarrow> b < length (heap q) \<longrightarrow>
                     obj (heap q' ! b) = obj (heap q ! b)"
    using lb by (simp add: q'(4) obj_nxt_upd_grow)
  moreover have "length (heap q) \<le> length (heap q')" by (simp add: q'(4))
  ultimately show ?thesis using q' True by auto
next
  case False
  then have "length fs \<noteq> 1" using free_list_empty_rep[OF assms] by simp
  moreover have "fs \<noteq> []" using assms by (simp add: q_rep_def)
  ultimately obtain f f2 fs' where fs: "fs = f # f2 # fs'"
    by (cases fs; cases "tl fs") auto
  from q_push_recycle[OF assms[unfolded fs], of x] obtain q' where
    q': "q_push q x = Inr q'" "q_rep q' (ms @ [f]) (f2 # fs')" "head q' = head q"
      "heap q' = (heap q)[last ms := (heap q ! last ms)\<lparr>nxt := Some f\<rparr>,
                             f := \<lparr>obj = Some x, nxt = None\<rparr>]"
    by blast
  have "chain (heap q) (free_head q) fs" using assms by (auto simp: q_rep_def)
  then have fb: "f < length (heap q)" using chain_bound[of _ _ fs f] fs by simp
  have "obj (heap q' ! f) = Some x"
    using fb by (simp add: q'(4))
  moreover have "\<forall>b. b \<noteq> f \<longrightarrow> b < length (heap q) \<longrightarrow> obj (heap q' ! b) = obj (heap q ! b)"
    by (simp add: q'(4) obj_nxt_upd)
  moreover have "length (heap q) \<le> length (heap q')" by (simp add: q'(4))
  ultimately show ?thesis using q' False fs by auto
qed

lemma q_pop_obj:
  assumes "q_rep q (m0 # m1 # ms) fs"
  shows "\<exists>q'. q_pop q = Inr q' \<and> q_rep q' (m1 # ms) (fs @ [m0]) \<and>
          tail q' = tail q \<and> head q' = Some m1 \<and> length (heap q') = length (heap q) \<and>
          obj (heap q' ! m0) = None \<and>
          (\<forall>b. b \<noteq> m0 \<longrightarrow> obj (heap q' ! b) = obj (heap q ! b))"
proof -
  from q_pop_rep[OF assms] obtain q' where
    q': "q_pop q = Inr q'" "q_rep q' (m1 # ms) (fs @ [m0])" "tail q' = tail q"
      "heap q' = (heap q)[last fs := (heap q ! last fs)\<lparr>nxt := Some m0\<rparr>,
                             m0 := \<lparr>obj = None, nxt = None\<rparr>]"
    by blast
  have "chain (heap q) (head q) (m0 # m1 # ms)" using assms by (auto simp: q_rep_def)
  then have mb: "m0 < length (heap q)" by simp
  have "obj (heap q' ! m0) = None" using mb by (simp add: q'(4))
  moreover have "\<forall>b. b \<noteq> m0 \<longrightarrow> obj (heap q' ! b) = obj (heap q ! b)"
    by (simp add: q'(4) obj_nxt_upd)
  moreover have "head q' = Some m1" using q_rep_head[OF q'(2)] by simp
  moreover have "length (heap q') = length (heap q)" by (simp add: q'(4))
  ultimately show ?thesis using q' by auto
qed

lemma q_rep_init: "q_rep (q_init d) [0] [1]"
  by (simp add: q_rep_def q_init_def)

lemma q_rep_bound: "q_rep q ms fs \<Longrightarrow> a \<in> set ms \<union> set fs \<Longrightarrow> a < length (heap q)"
  by (auto simp: q_rep_def dest: chain_bound)

lemma q_vals_push:
  assumes "q_rep q ms fs"
  shows "\<exists>q' a fs'. q_push q x = Inr q' \<and> q_rep q' (ms @ [a]) fs' \<and>
           q_vals q' (ms @ [a]) = q_vals q ms @ [Some x]"
proof -
  from q_push_rep[OF assms, of x] obtain q' a fs' where
    q': "q_push q x = Inr q'" "q_rep q' (ms @ [a]) fs'" "obj (heap q' ! a) = Some x"
       "\<forall>b. b \<noteq> a \<longrightarrow> b < length (heap q) \<longrightarrow> obj (heap q' ! b) = obj (heap q ! b)"
    by blast
  have ne: "ms \<noteq> []" using assms by (simp add: q_rep_def)
  have "a \<notin> set ms" using q'(2) by (auto simp: q_rep_def)
  then have "\<forall>b\<in>set (tl ms). obj (heap q' ! b) = obj (heap q ! b)"
    using q'(4) q_rep_bound[OF assms] ne by (metis UnCI list.set_sel(2))
  then have "q_vals q' (ms @ [a]) = q_vals q ms @ [Some x]"
    using ne q'(3) by (simp add: q_vals_def)
  with q' show ?thesis by blast
qed

lemma push_all_rep:
  "q_rep q ms fs \<Longrightarrow> \<exists>q' ms' fs'. push_all q xs = Inr q' \<and> q_rep q' (ms @ ms') fs' \<and>
      q_vals q' (ms @ ms') = q_vals q ms @ map Some xs"
proof (induction xs arbitrary: q ms fs)
  case Nil
  then show ?case by (intro exI[of _ q] exI[of _ "[]"] exI[of _ fs]) simp
next
  case (Cons x xs)
  from q_vals_push[OF Cons.prems, of x] obtain q1 a fs1 where
    q1: "q_push q x = Inr q1" "q_rep q1 (ms @ [a]) fs1"
        "q_vals q1 (ms @ [a]) = q_vals q ms @ [Some x]" by blast
  from Cons.IH[OF q1(2)] obtain q' ms' fs' where
    q': "push_all q1 xs = Inr q'" "q_rep q' ((ms @ [a]) @ ms') fs'"
        "q_vals q' ((ms @ [a]) @ ms') = q_vals q1 (ms @ [a]) @ map Some xs" by blast
  show ?case
    using q1 q' by (intro exI[of _ q'] exI[of _ "a # ms'"] exI[of _ fs']) simp
qed

lemma q_front_rep:
  assumes "q_rep q (m0 # m1 # ms) fs" "obj (heap q ! m1) = Some x"
  shows "q_front q = Inr x"
  using assms front_ref_rep[OF assms(1)] q_rep_bound[OF assms(1), of m1]
  by (simp add: q_front_def get_obj_def)

lemma drain_rep:
  "q_rep q ms fs \<Longrightarrow> q_vals q ms = map Some xs \<Longrightarrow>
   \<exists>q' fs'. drain q (length xs) = Inr (xs, q') \<and> q_rep q' [last ms] fs'"
proof (induction xs arbitrary: q ms fs)
  case Nil
  then have "length ms = 1" by (simp add: q_vals_def q_rep_def) (cases ms; simp)
  then have "ms = [last ms]" by (cases ms) auto
  with Nil show ?case by (intro exI[of _ q] exI[of _ fs]) simp
next
  case (Cons x xs)
  from Cons.prems(2) obtain m0 m1 rest where ms: "ms = m0 # m1 # rest"
    by (cases ms; cases "tl ms") (auto simp: q_vals_def)
  have x: "obj (heap q ! m1) = Some x" and rest: "map (\<lambda>a. obj (heap q ! a)) rest = map Some xs"
    using Cons.prems(2) by (auto simp: q_vals_def ms)
  have fr: "q_front q = Inr x" by (rule q_front_rep[OF Cons.prems(1)[unfolded ms] x])
  from q_pop_obj[OF Cons.prems(1)[unfolded ms]] obtain q1 where
    q1: "q_pop q = Inr q1" "q_rep q1 (m1 # rest) (fs @ [m0])"
        "\<forall>b. b \<noteq> m0 \<longrightarrow> obj (heap q1 ! b) = obj (heap q ! b)" by blast
  have "m0 \<notin> set rest" using Cons.prems(1) by (auto simp: q_rep_def ms)
  then have "map (\<lambda>a. obj (heap q1 ! a)) rest = map (\<lambda>a. obj (heap q ! a)) rest"
    using q1(3) by (intro map_cong) auto
  then have "q_vals q1 (m1 # rest) = map Some xs"
    using rest by (simp add: q_vals_def)
  from Cons.IH[OF q1(2) this] obtain q' fs' where
    "drain q1 (length xs) = Inr (xs, q')" "q_rep q' [last (m1 # rest)] fs'" by blast
  then show ?case using fr q1(1) by (intro exI[of _ q'] exI[of _ fs']) (simp add: ms)
qed

lemma q_back_rep:
  assumes "q_rep q ms fs" "obj (heap q ! last ms) = Some x"
  shows "q_back q = Inr x"
proof -
  have "ms \<noteq> []" using assms(1) by (simp add: q_rep_def)
  then have "last ms < length (heap q)" using q_rep_bound[OF assms(1), of "last ms"] by simp
  then show ?thesis using assms back_ref_rep[OF assms(1)] by (simp add: q_back_def get_obj_def)
qed

lemma q_pop_vals:
  assumes "q_rep q (m0 # m1 # rest) fs"
  shows "\<exists>q'. q_pop q = Inr q' \<and> q_rep q' (m1 # rest) (fs @ [m0]) \<and> tail q' = tail q \<and>
           q_vals q' (m1 # rest) = tl (q_vals q (m0 # m1 # rest))"
proof -
  from q_pop_obj[OF assms] obtain q' where
    q': "q_pop q = Inr q'" "q_rep q' (m1 # rest) (fs @ [m0])" "tail q' = tail q"
        "\<forall>b. b \<noteq> m0 \<longrightarrow> obj (heap q' ! b) = obj (heap q ! b)"
    by blast
  have "m0 \<notin> set rest" using assms by (auto simp: q_rep_def)
  then have "\<And>a. a \<in> set rest \<Longrightarrow> a \<noteq> m0" by auto
  then have "map (\<lambda>a. obj (heap q' ! a)) rest = map (\<lambda>a. obj (heap q ! a)) rest"
    using q'(4) by (intro map_cong) simp_all
  then have "q_vals q' (m1 # rest) = tl (q_vals q (m0 # m1 # rest))" by (simp add: q_vals_def)
  with q' show ?thesis by blast
qed

lemma set_obj_rep:
  assumes "q_rep q ms fs" "a < length (heap q)" "obj (heap q ! a) = Some y"
  shows "\<exists>q'. set_obj q a x = Inr q' \<and> q_rep q' ms fs \<and>
           heap q' = (heap q)[a := (heap q ! a)\<lparr>obj := Some x\<rparr>] \<and>
           head q' = head q \<and> tail q' = tail q"
proof -
  let ?q = "q\<lparr>heap := (heap q)[a := (heap q ! a)\<lparr>obj := Some x\<rparr>]\<rparr>"
  have "set_obj q a x = Inr ?q" using assms(2,3) by (simp add: set_obj_def get_obj_def)
  moreover have "q_rep ?q ms fs" using assms(1) by (simp add: q_rep_def chain_obj_upd)
  ultimately show ?thesis by simp
qed

lemma q_vals_set_last:
  assumes "distinct ms" "2 \<le> length ms" "last ms < length h"
  shows "map (\<lambda>a. obj (h[last ms := (h ! last ms)\<lparr>obj := Some x\<rparr>] ! a)) (tl ms)
         = butlast (map (\<lambda>a. obj (h ! a)) (tl ms)) @ [Some x]"
proof -
  from assms(2) obtain m0 rest where ms: "ms = m0 # rest" "rest \<noteq> []"
    by (cases ms; cases "tl ms") auto
  then obtain r where rest: "rest = butlast rest @ [r]" "r = last rest"
    by (metis append_butlast_last_id)
  have "r \<notin> set (butlast rest)" using assms(1) ms rest
    by (metis distinct.simps(2) distinct_append not_distinct_conv_prefix)
  then have "\<And>a. a \<in> set (butlast rest) \<Longrightarrow> r \<noteq> a" by auto
  then have "map (\<lambda>a. obj (h[r := (h ! r)\<lparr>obj := Some x\<rparr>] ! a)) (butlast rest)
           = map (\<lambda>a. obj (h ! a)) (butlast rest)"
    by (intro map_cong) simp_all
  moreover have "r < length h" using assms(3) ms rest by simp
  ultimately have "map (\<lambda>a. obj (h[r := (h ! r)\<lparr>obj := Some x\<rparr>] ! a)) (butlast rest @ [r])
       = map (\<lambda>a. obj (h ! a)) (butlast rest) @ [Some x]" by simp
  then show ?thesis using ms rest by (simp add: map_butlast[symmetric])
qed


lemma q_vals_set_front:
  assumes "distinct (m0 # m1 # rest)" "m1 < length h"
  shows "map (\<lambda>a. obj (h[m1 := (h ! m1)\<lparr>obj := Some x\<rparr>] ! a)) (m1 # rest)
         = Some x # map (\<lambda>a. obj (h ! a)) rest"
proof -
  have "\<And>a. a \<in> set rest \<Longrightarrow> m1 \<noteq> a" using assms(1) by auto
  then have "map (\<lambda>a. obj (h[m1 := (h ! m1)\<lparr>obj := Some x\<rparr>] ! a)) rest
           = map (\<lambda>a. obj (h ! a)) rest"
    by (intro map_cong) simp_all
  then show ?thesis using assms(2) by simp
qed

lemma brep_holds: "brep b w segs \<Longrightarrow> q_holds b segs"
  by (auto simp: brep_def q_holds_def)

lemma q_holds_empty: "q_holds q xs \<Longrightarrow> q_empty q \<longleftrightarrow> xs = []"
proof -
  assume "q_holds q xs"
  then obtain ms fs where r: "q_rep q ms fs" "q_vals q ms = map Some xs"
    by (auto simp: q_holds_def)
  have "ms \<noteq> []" using r(1) by (simp add: q_rep_def)
  then have "length ms = 1 \<longleftrightarrow> tl ms = []" by (cases ms) auto
  moreover have "length (tl ms) = length xs" using r(2) by (metis length_map q_vals_def)
  then have "tl ms = [] \<longleftrightarrow> xs = []" by (metis length_0_conv)
  ultimately show ?thesis using q_empty_rep[OF r(1)] by simp
qed

lemma q_holds_push:
  assumes "q_holds q xs"
  shows "\<exists>q'. q_push q x = Inr q' \<and> q_holds q' (xs @ [x])"
proof -
  from assms obtain ms fs where r: "q_rep q ms fs" "q_vals q ms = map Some xs"
    by (auto simp: q_holds_def)
  from q_vals_push[OF r(1), of x] r(2) show ?thesis
    by (auto simp: q_holds_def)
qed

lemma q_holds_init: "q_holds (q_init d) []"
  using q_rep_init[of d] by (auto simp: q_holds_def q_vals_def)

lemma q_holds_heap:
  assumes "q_holds q xs"
  shows "length xs + 2 \<le> length (heap q)"
proof -
  from assms obtain ms fs where r: "q_rep q ms fs" "q_vals q ms = map Some xs"
    by (auto simp: q_holds_def)
  have d: "distinct (ms @ fs)" "fs \<noteq> []" "ms \<noteq> []" using r(1) by (auto simp: q_rep_def)
  have "set (ms @ fs) \<subseteq> {..<length (heap q)}"
    using q_rep_bound[OF r(1)] by auto
  then have "card (set (ms @ fs)) \<le> length (heap q)"
    using card_mono[of "{..<length (heap q)}" "set (ms @ fs)"] by simp
  then have "length ms + length fs \<le> length (heap q)"
    using d(1) distinct_card[of "ms @ fs"] by simp
  moreover have "length xs = length ms - 1"
    using r(2) d(3) by (metis length_map length_tl q_vals_def)
  moreover have "1 \<le> length fs" "1 \<le> length ms" using d(2,3) by (cases fs; cases ms; simp)+
  ultimately show ?thesis by simp
qed

lemma q_holds_pop:
  assumes "q_holds q (x # xs)"
  shows "\<exists>q'. q_pop q = Inr q' \<and> q_holds q' xs"
proof -
  from assms obtain ms fs where r: "q_rep q ms fs" "q_vals q ms = map Some (x # xs)"
    by (auto simp: q_holds_def)
  from r(2) obtain m0 m1 rest where ms: "ms = m0 # m1 # rest"
    by (cases ms; cases "tl ms") (auto simp: q_vals_def)
  from q_pop_vals[OF r(1)[unfolded ms]] r(2) show ?thesis
    by (auto simp: q_holds_def ms)
qed


lemma q_holds_front:
  assumes "q_holds q (x # xs)"
  shows "\<exists>r. front_ref q = Inr r \<and> get_obj q r = Inr x \<and>
           (\<forall>y. \<exists>q1. set_obj q r y = Inr q1 \<and> q_holds q1 (y # xs))"
proof -
  from assms obtain ms fs where r: "q_rep q ms fs" "q_vals q ms = map Some (x # xs)"
    by (auto simp: q_holds_def)
  from r(2) obtain m0 m1 rest where ms: "ms = m0 # m1 # rest"
    by (cases ms; cases "tl ms") (auto simp: q_vals_def)
  have x: "obj (heap q ! m1) = Some x" and rest: "map (\<lambda>a. obj (heap q ! a)) rest = map Some xs"
    using r(2) by (auto simp: q_vals_def ms)
  have b: "m1 < length (heap q)" using q_rep_bound[OF r(1), of m1] by (simp add: ms)
  have d: "distinct (m0 # m1 # rest)" using r(1) by (simp add: q_rep_def ms)
  have fr: "front_ref q = Inr m1" using front_ref_rep r(1) unfolding ms by blast
  have g: "get_obj q m1 = Inr x" using b x by (simp add: get_obj_def)
  have "\<exists>q1. set_obj q m1 y = Inr q1 \<and> q_holds q1 (y # xs)" for y
  proof -
    from set_obj_rep[OF r(1) b x, of y] obtain q1 where
      q1: "set_obj q m1 y = Inr q1" "q_rep q1 ms fs"
          "heap q1 = (heap q)[m1 := (heap q ! m1)\<lparr>obj := Some y\<rparr>]" by blast
    have "q_vals q1 ms = map Some (y # xs)"
      using q_vals_set_front[OF d b, of y] rest by (simp add: q_vals_def ms q1(3))
    with q1 show ?thesis by (auto simp: q_holds_def)
  qed
  with fr g show ?thesis by blast
qed

lemma brep_emplace:
  assumes "q_holds b segs"
  shows "\<exists>b' a. q_emplace b x = Inr b' \<and> back_ref b' = Inr a \<and> brep b' (Some a) (segs @ [x])"
proof -
  from assms obtain ms fs where r: "q_rep b ms fs" "q_vals b ms = map Some segs"
    by (auto simp: q_holds_def)
  from q_vals_push[OF r(1), of x] obtain b' a fs' where
    b': "q_push b x = Inr b'" "q_rep b' (ms @ [a]) fs'"
        "q_vals b' (ms @ [a]) = q_vals b ms @ [Some x]" by blast
  have "back_ref b' = Inr a" using back_ref_rep[OF b'(2)] by simp
  moreover have "brep b' (Some a) (segs @ [x])"
    unfolding brep_def using b'(2,3) r(2) by (intro exI[of _ "ms @ [a]"] exI[of _ fs']) simp
  ultimately show ?thesis using b'(1) by (auto simp: q_emplace_def)
qed

lemma brep_back:
  assumes "brep b w segs"
  shows "\<exists>a. back_ref b = Inr a \<and> w = Some a \<and> get_obj b a = Inr (last segs) \<and>
           (\<forall>x. \<exists>b'. set_obj b a x = Inr b' \<and> brep b' w (butlast segs @ [x]))"
proof -
  from assms obtain ms fs where r: "q_rep b ms fs" "q_vals b ms = map Some segs" "segs \<noteq> []"
    "w = Some (last ms)" by (auto simp: brep_def)
  have ne: "tl ms \<noteq> []" using r(2,3) by (auto simp: q_vals_def)
  then have l2: "2 \<le> length ms" by (cases ms; cases "tl ms") auto
  have lt: "last ms = last (tl ms)" using ne by (cases ms) auto
  have "last (map (\<lambda>a. obj (heap b ! a)) (tl ms)) = last (map Some segs)"
    using r(2) by (simp add: q_vals_def)
  then have o: "obj (heap b ! last ms) = Some (last segs)"
    using ne r(3) lt by (simp add: last_map)
  have "ms \<noteq> []" using l2 by auto
  then have "last ms \<in> set ms" by simp
  then have bd: "last ms < length (heap b)" using q_rep_bound[OF r(1), of "last ms"] by simp
  have d: "distinct ms" using r(1) by (simp add: q_rep_def)
  have g: "get_obj b (last ms) = Inr (last segs)" using bd o by (simp add: get_obj_def)
  have "\<exists>b'. set_obj b (last ms) x = Inr b' \<and> brep b' w (butlast segs @ [x])" for x
  proof -
    from set_obj_rep[OF r(1) bd o, of x] obtain b' where
      b': "set_obj b (last ms) x = Inr b'" "q_rep b' ms fs"
          "heap b' = (heap b)[last ms := (heap b ! last ms)\<lparr>obj := Some x\<rparr>]" by blast
    have "q_vals b' ms = butlast (q_vals b ms) @ [Some x]"
      using q_vals_set_last[OF d l2 bd, of x] by (simp add: q_vals_def b'(3))
    then have "q_vals b' ms = map Some (butlast segs @ [x])"
      using r(2) by (simp add: map_butlast)
    then have "brep b' w (butlast segs @ [x])"
      unfolding brep_def using b'(2) r(4) by (intro exI[of _ ms] exI[of _ fs]) simp
    with b' show ?thesis by blast
  qed
  with g back_ref_rep[OF r(1)] r(4) show ?thesis by blast
qed

lemma brep_front:
  assumes "brep b w segs"
  shows "\<exists>r. front_ref b = Inr r \<and> get_obj b r = Inr (hd segs) \<and>
           (Some r = w \<longleftrightarrow> length segs = 1) \<and>
           (\<forall>x. \<exists>b'. set_obj b r x = Inr b' \<and> brep b' w (x # tl segs))"
proof -
  from assms obtain ms fs where r: "q_rep b ms fs" "q_vals b ms = map Some segs" "segs \<noteq> []"
    "w = Some (last ms)" by (auto simp: brep_def)
  from r(2,3) obtain m0 m1 rest where ms: "ms = m0 # m1 # rest"
    by (cases ms; cases "tl ms") (auto simp: q_vals_def)
  obtain x0 xs where segs: "segs = x0 # xs" using r(3) by (cases segs) auto
  have x: "obj (heap b ! m1) = Some x0" and rest: "map (\<lambda>a. obj (heap b ! a)) rest = map Some xs"
    using r(2) by (auto simp: q_vals_def ms segs)
  have bd: "m1 < length (heap b)" using q_rep_bound[OF r(1), of m1] by (simp add: ms)
  have d: "distinct (m0 # m1 # rest)" using r(1) by (simp add: q_rep_def ms)
  have fr: "front_ref b = Inr m1" using front_ref_rep r(1) unfolding ms by blast
  have g: "get_obj b m1 = Inr (hd segs)" using bd x by (simp add: get_obj_def segs)
  have "length rest = length xs" using rest by (metis length_map)
  then have one: "Some m1 = w \<longleftrightarrow> length segs = 1"
    using d r(4) by (cases rest) (auto simp: ms segs)
  have "\<exists>b'. set_obj b m1 y = Inr b' \<and> brep b' w (y # tl segs)" for y
  proof -
    from set_obj_rep[OF r(1) bd x, of y] obtain b' where
      b': "set_obj b m1 y = Inr b'" "q_rep b' ms fs"
          "heap b' = (heap b)[m1 := (heap b ! m1)\<lparr>obj := Some y\<rparr>]" by blast
    have "q_vals b' ms = map Some (y # xs)"
      using q_vals_set_front[OF d bd, of y] rest by (simp add: q_vals_def ms b'(3))
    then have "brep b' w (y # tl segs)"
      unfolding brep_def using b'(2) r(4) by (intro exI[of _ ms] exI[of _ fs]) (simp add: segs)
    with b' show ?thesis by blast
  qed
  with fr g one show ?thesis by blast
qed

lemma brep_pop:
  assumes "brep b w (x # y # segs)"
  shows "\<exists>b'. q_pop b = Inr b' \<and> brep b' w (y # segs)"
proof -
  from assms obtain ms fs where r: "q_rep b ms fs" "q_vals b ms = map Some (x # y # segs)"
    "w = Some (last ms)" by (auto simp: brep_def)
  from r(2) obtain m0 m1 m2 rest where ms: "ms = m0 # m1 # m2 # rest"
    by (cases ms; cases "tl ms"; cases "tl (tl ms)") (auto simp: q_vals_def)
  from q_pop_vals[OF r(1)[unfolded ms]] obtain b' where
    b': "q_pop b = Inr b'" "q_rep b' (m1 # m2 # rest) (fs @ [m0])"
        "q_vals b' (m1 # m2 # rest) = tl (q_vals b (m0 # m1 # m2 # rest))" by blast
  have "brep b' w (y # segs)"
    unfolding brep_def using b'(2,3) r(2,3)
    by (intro exI[of _ "m1 # m2 # rest"] exI[of _ "fs @ [m0]"]) (simp add: ms)
  with b'(1) show ?thesis by blast
qed

section \<open>Facts about the buffer\<close>

subsection \<open>The helpers on a well-formed buffer\<close>

lemma notify_rep:
  assumes "rep s segs pres frees"
  shows "\<exists>b. notify s = Inr (s\<lparr>buf := b\<rparr>) \<and>
           rep (s\<lparr>buf := b\<rparr>) (butlast segs @ [(fst (last segs), wpos_private s)]) pres frees"
proof -
  from assms have b: "brep (buf s) (wpos s) segs" by (simp add: rep_def)
  from brep_back[OF b] obtain a where
    a: "wpos s = Some a" "get_obj (buf s) a = Inr (last segs)"
       "\<forall>x. \<exists>b'. set_obj (buf s) a x = Inr b' \<and> brep b' (wpos s) (butlast segs @ [x])"
    by blast
  from a(3) obtain b' where
    b': "set_obj (buf s) a (fst (last segs), wpos_private s) = Inr b'"
        "brep b' (wpos s) (butlast segs @ [(fst (last segs), wpos_private s)])" by blast
  have "notify s = Inr (s\<lparr>buf := b'\<rparr>)"
    using a(1,2) b'(1) by (simp add: notify_def store_end_def)
  moreover have "rep (s\<lparr>buf := b'\<rparr>) (butlast segs @ [(fst (last segs), wpos_private s)]) pres frees"
    using assms b'(2) by (simp add: rep_def)
  ultimately show ?thesis by blast
qed

lemma check_one_block_left_rep:
  "rep s segs pres frees \<Longrightarrow> check_one_block_left s = Inr (length segs = 1)"
  using brep_front[of "buf s" "wpos s" segs]
  by (auto simp: rep_def check_one_block_left_def)

lemma front_end_rep:
  "rep s segs pres frees \<Longrightarrow> front_end s = Inr (snd (hd segs))"
  using brep_front[of "buf s" "wpos s" segs]
  by (auto simp: rep_def front_end_def)

lemma front_slice_rep:
  "rep s segs pres frees \<Longrightarrow>
   front_slice s len = (case fst (hd segs) of None \<Rightarrow> Inl NullDeref
       | Some blk \<Rightarrow> if rpos s + len \<le> length blk then Inr (take len (drop (rpos s) blk))
                     else Inl OutOfBounds)"
  using brep_front[of "buf s" "wpos s" segs]
  by (auto simp: rep_def front_slice_def)

lemma load_end_rep:
  "rep s segs pres frees \<Longrightarrow> load_end (buf s) (wpos s) = Inr (snd (last segs))"
  using brep_back[of "buf s" "wpos s" segs]
  by (auto simp: rep_def load_end_def)

lemma new_block_upd [simp]:
  "new_block (s\<lparr>buf := b\<rparr>) = new_block s"
  "new_block (s\<lparr>wpos_private := w\<rparr>) = new_block s"
  "new_block (s\<lparr>rpos := r\<rparr>) = new_block s"
  "new_block (s\<lparr>one_block_left := f\<rparr>) = new_block s"
  by (simp_all add: new_block_def)

lemma add_block_rep:
  assumes "rep s segs pres frees"
  shows "\<exists>b fl a. add_block s =
            Inr (s\<lparr>buf := b, free_list := fl, wpos := Some a, wpos_private := 0,
                   allocs := (if frees = [] then Suc (allocs s) else allocs s)\<rparr>) \<and>
          rep (s\<lparr>buf := b, free_list := fl, wpos := Some a, wpos_private := 0,
                   allocs := (if frees = [] then Suc (allocs s) else allocs s)\<rparr>)
              (butlast segs @ [(fst (last segs), wpos_private s),
                 (if frees = [] then Some (new_block s) else hd frees, 0)])
              pres (tl frees)"
proof -
  let ?segs1 = "butlast segs @ [(fst (last segs), wpos_private s)]"
  from assms have b: "brep (buf s) (wpos s) segs" and p: "q_holds (preserved_list s) pres"
    and f: "q_holds (free_list s) frees" by (simp_all add: rep_def)
  from brep_back[OF b] obtain a0 where
    a0: "wpos s = Some a0" "get_obj (buf s) a0 = Inr (last segs)"
       "\<forall>x. \<exists>b'. set_obj (buf s) a0 x = Inr b' \<and> brep b' (wpos s) (butlast segs @ [x])"
    by blast
  from a0(3) obtain b0 where
    b0: "set_obj (buf s) a0 (fst (last segs), wpos_private s) = Inr b0"
        "brep b0 (wpos s) ?segs1" by blast
  have st: "store_end (buf s) (wpos s) (wpos_private s) = Inr b0"
    using a0(1,2) b0(1) by (simp add: store_end_def)
  show ?thesis
  proof (cases "frees = []")
    case True
    then have e: "q_empty (free_list s)" using q_holds_empty[OF f] by simp
    from brep_emplace[OF brep_holds[OF b0(2)], of "(Some (new_block s), 0)"] obtain b' a where
      b': "q_emplace b0 (Some (new_block s), 0) = Inr b'" "back_ref b' = Inr a"
          "brep b' (Some a) (?segs1 @ [(Some (new_block s), 0)])" by blast
    have "add_block s = Inr (s\<lparr>buf := b', free_list := free_list s, wpos := Some a,
              wpos_private := 0, allocs := Suc (allocs s)\<rparr>)"
      using st e b'(1,2) by (simp add: add_block_def)
    moreover have "rep (s\<lparr>buf := b', free_list := free_list s, wpos := Some a,
              wpos_private := 0, allocs := Suc (allocs s)\<rparr>)
              (?segs1 @ [(Some (new_block s), 0)]) pres (tl frees)"
      using b'(3) p f True by (simp add: rep_def)
    ultimately show ?thesis using True by (intro exI[of _ b'] exI[of _ "free_list s"] exI[of _ a]) simp
  next
    case False
    then obtain x xs where fr: "frees = x # xs" by (cases frees) auto
    have e: "\<not> q_empty (free_list s)" using q_holds_empty[OF f] False by simp
    from q_holds_front[OF f[unfolded fr]] obtain r where
      r: "front_ref (free_list s) = Inr r" "get_obj (free_list s) r = Inr x"
         "\<forall>y. \<exists>q1. set_obj (free_list s) r y = Inr q1 \<and> q_holds q1 (y # xs)" by blast
    from r(3) obtain fl where fl: "set_obj (free_list s) r None = Inr fl" "q_holds fl (None # xs)"
      by blast
    from q_holds_pop[OF fl(2)] obtain fl2 where fl2: "q_pop fl = Inr fl2" "q_holds fl2 xs" by blast
    from brep_emplace[OF brep_holds[OF b0(2)], of "(x, 0)"] obtain b' a where
      b': "q_emplace b0 (x, 0) = Inr b'" "back_ref b' = Inr a"
          "brep b' (Some a) (?segs1 @ [(x, 0)])" by blast
    have "add_block s = Inr (s\<lparr>buf := b', free_list := fl2, wpos := Some a,
              wpos_private := 0\<rparr>)"
      using st e r(1,2) fl(1) fl2(1) b'(1,2) by (simp add: add_block_def)
    moreover have "rep (s\<lparr>buf := b', free_list := fl2, wpos := Some a, wpos_private := 0\<rparr>)
              (?segs1 @ [(x, 0)]) pres (tl frees)"
      using b'(3) p fl2(2) fr by (simp add: rep_def)
    ultimately show ?thesis using fr by (intro exI[of _ b'] exI[of _ fl2] exI[of _ a]) simp
  qed
qed


lemma copy_to_back_rep:
  assumes "rep s segs pres frees"
  shows "copy_to_back s bytes =
          (if bytes = [] then Inr s
           else case fst (last segs) of None \<Rightarrow> Inl NullDeref
           | Some blk \<Rightarrow> if wpos_private s + length bytes \<le> length blk
               then copy_to_back s bytes else Inl OutOfBounds) \<and>
         (\<forall>blk. bytes \<noteq> [] \<longrightarrow> fst (last segs) = Some blk \<longrightarrow>
                wpos_private s + length bytes \<le> length blk \<longrightarrow>
            (\<exists>b. copy_to_back s bytes = Inr (s\<lparr>buf := b\<rparr>) \<and>
              rep (s\<lparr>buf := b\<rparr>)
                (butlast segs @ [(Some (take (wpos_private s) blk @ bytes @
                     drop (wpos_private s + length bytes) blk), snd (last segs))])
                pres frees))"
proof -
  from assms have b: "brep (buf s) (wpos s) segs" by (simp add: rep_def)
  from brep_back[OF b] obtain a where
    a: "back_ref (buf s) = Inr a" "get_obj (buf s) a = Inr (last segs)"
       "\<forall>x. \<exists>b'. set_obj (buf s) a x = Inr b' \<and> brep b' (wpos s) (butlast segs @ [x])"
    by blast
  have 1: "copy_to_back s bytes =
          (if bytes = [] then Inr s
           else case fst (last segs) of None \<Rightarrow> Inl NullDeref
           | Some blk \<Rightarrow> if wpos_private s + length bytes \<le> length blk
               then copy_to_back s bytes else Inl OutOfBounds)"
    using a(1,2) by (simp add: copy_to_back_def split: option.splits)
  have 2: "\<exists>b. copy_to_back s bytes = Inr (s\<lparr>buf := b\<rparr>) \<and>
              rep (s\<lparr>buf := b\<rparr>)
                (butlast segs @ [(Some (take (wpos_private s) blk @ bytes @
                     drop (wpos_private s + length bytes) blk), snd (last segs))])
                pres frees"
    if h: "bytes \<noteq> []" "fst (last segs) = Some blk" "wpos_private s + length bytes \<le> length blk"
    for blk
  proof -
    let ?x = "(Some (take (wpos_private s) blk @ bytes @
                     drop (wpos_private s + length bytes) blk), snd (last segs))"
    from a(3) obtain b' where b': "set_obj (buf s) a ?x = Inr b'"
       "brep b' (wpos s) (butlast segs @ [?x])" by blast
    have "copy_to_back s bytes = Inr (s\<lparr>buf := b'\<rparr>)"
      using a(1,2) h b'(1) by (simp add: copy_to_back_def)
    moreover have "rep (s\<lparr>buf := b'\<rparr>) (butlast segs @ [?x]) pres frees"
      using assms b'(2) by (simp add: rep_def)
    ultimately show ?thesis by blast
  qed
  from 1 2 show ?thesis by blast
qed

lemma pop_block_rep:
  assumes "rep s (x # y # segs) pres frees"
  shows "\<exists>b pl. pop_block s =
            Inr (s\<lparr>buf := b, preserved_list := pl, rpos := 0, one_block_left := (segs = [])\<rparr>) \<and>
          rep (s\<lparr>buf := b, preserved_list := pl, rpos := 0, one_block_left := (segs = [])\<rparr>)
              (y # segs) (pres @ [x]) frees"
proof -
  from assms have b: "brep (buf s) (wpos s) (x # y # segs)"
    and p: "q_holds (preserved_list s) pres"
    and f: "q_holds (free_list s) frees" by (simp_all add: rep_def)
  from brep_front[OF b] obtain r where
    r: "front_ref (buf s) = Inr r" "get_obj (buf s) r = Inr x"
       "\<forall>z. \<exists>b'. set_obj (buf s) r z = Inr b' \<and> brep b' (wpos s) (z # y # segs)" by auto
  from r(3) obtain b1 where b1: "set_obj (buf s) r (None, snd x) = Inr b1"
      "brep b1 (wpos s) ((None, snd x) # y # segs)" by blast
  from q_holds_push[OF p, of x] obtain pl where
    pl: "q_push (preserved_list s) x = Inr pl" "q_holds pl (pres @ [x])" by blast
  from brep_pop[OF b1(2)] obtain b2 where b2: "q_pop b1 = Inr b2" "brep b2 (wpos s) (y # segs)"
    by blast
  let ?s1 = "s\<lparr>buf := b2, preserved_list := pl, rpos := 0\<rparr>"
  have r1: "rep ?s1 (y # segs) (pres @ [x]) frees"
    using b2(2) pl(2) f by (simp add: rep_def)
  have c: "check_one_block_left ?s1 = Inr (segs = [])"
    using check_one_block_left_rep[OF r1] by simp
  have "pop_block s = Inr (?s1\<lparr>one_block_left := (segs = [])\<rparr>)"
    using r(1,2) b1(1) pl(1) b2(1) c by (simp add: pop_block_def)
  moreover have "rep (?s1\<lparr>one_block_left := (segs = [])\<rparr>) (y # segs) (pres @ [x]) frees"
    using r1 by (simp add: rep_def)
  ultimately show ?thesis by (intro exI[of _ b2] exI[of _ pl]) simp
qed

lemma clear_loop_rep:
  "rep s segs pres frees \<Longrightarrow> length pres < k \<Longrightarrow>
   \<exists>fl pl. clear_loop k s len c = Inr (s\<lparr>free_list := fl, preserved_list := pl\<rparr>) \<and>
     rep (s\<lparr>free_list := fl, preserved_list := pl\<rparr>) segs
         (drop (clear_count pres len c) pres)
         (frees @ map fst (take (clear_count pres len c) pres))"
proof (induction k arbitrary: s pres frees c)
  case 0
  then show ?case by simp
next
  case (Suc k)
  from Suc.prems(1) have b: "brep (buf s) (wpos s) segs"
    and p: "q_holds (preserved_list s) pres"
    and f: "q_holds (free_list s) frees" by (simp_all add: rep_def)
  show ?case
  proof (cases pres)
    case Nil
    then have "q_empty (preserved_list s)" using q_holds_empty[OF p] by simp
    then have "clear_loop (Suc k) s len c = Inr s" by simp
    then show ?thesis using Suc.prems(1) Nil
      by (intro exI[of _ "free_list s"] exI[of _ "preserved_list s"]) simp
  next
    case (Cons seg pl0)
    then have ne: "\<not> q_empty (preserved_list s)" using q_holds_empty[OF p] by simp
    from q_holds_front[OF p[unfolded Cons]] obtain r where
      r: "front_ref (preserved_list s) = Inr r" "get_obj (preserved_list s) r = Inr seg"
         "\<forall>y. \<exists>q1. set_obj (preserved_list s) r y = Inr q1 \<and> q_holds q1 (y # pl0)" by blast
    show ?thesis
    proof (cases "sz_add (snd seg) c \<le> len")
      case False
      then have "clear_loop (Suc k) s len c = Inr s" using ne r(1,2) by simp
      then show ?thesis using Suc.prems(1) Cons False
        by (intro exI[of _ "free_list s"] exI[of _ "preserved_list s"]) simp
    next
      case True
      from r(3) obtain pl1 where pl1: "set_obj (preserved_list s) r (None, snd seg) = Inr pl1"
        "q_holds pl1 ((None, snd seg) # pl0)" by blast
      from q_holds_push[OF f, of "fst seg"] obtain fl where
        fl: "q_push (free_list s) (fst seg) = Inr fl" "q_holds fl (frees @ [fst seg])" by blast
      from q_holds_pop[OF pl1(2)] obtain pl2 where pl2: "q_pop pl1 = Inr pl2" "q_holds pl2 pl0"
        by blast
      let ?s1 = "s\<lparr>free_list := fl, preserved_list := pl2\<rparr>"
      have r1: "rep ?s1 segs pl0 (frees @ [fst seg])"
        using b fl(2) pl2(2) by (simp add: rep_def)
      have "length pl0 < k" using Suc.prems(2) Cons by simp
      from Suc.IH[OF r1 this, of "sz_add c (snd seg)"] obtain fl' pl' where
        ih: "clear_loop k ?s1 len (sz_add c (snd seg)) = Inr (?s1\<lparr>free_list := fl', preserved_list := pl'\<rparr>)"
            "rep (?s1\<lparr>free_list := fl', preserved_list := pl'\<rparr>) segs
               (drop (clear_count pl0 len (sz_add c (snd seg))) pl0)
               ((frees @ [fst seg]) @ map fst (take (clear_count pl0 len (sz_add c (snd seg))) pl0))"
        by blast
      have "clear_loop (Suc k) s len c = Inr (s\<lparr>free_list := fl', preserved_list := pl'\<rparr>)"
        using ne r(1,2) True pl1(1) fl(1) pl2(1) ih(1) by simp
      moreover have "rep (s\<lparr>free_list := fl', preserved_list := pl'\<rparr>) segs
         (drop (clear_count pres len c) pres)
         (frees @ map fst (take (clear_count pres len c) pres))"
        using ih(2) True Cons by simp
      ultimately show ?thesis by blast
    qed
  qed
qed

lemma clear_preserved_rep:
  assumes "rep s segs pres frees"
  shows "\<exists>fl pl. clear_preserved s len = Inr (s\<lparr>free_list := fl, preserved_list := pl\<rparr>) \<and>
     rep (s\<lparr>free_list := fl, preserved_list := pl\<rparr>) segs
         (drop (clear_count pres len 0) pres)
         (frees @ map fst (take (clear_count pres len 0) pres))"
proof -
  have "q_holds (preserved_list s) pres" using assms by (simp add: rep_def)
  from q_holds_heap[OF this] have "length pres < length (heap (preserved_list s))" by simp
  from clear_loop_rep[OF assms this] show ?thesis by (simp add: clear_preserved_def)
qed

subsection \<open>Every operation keeps the invariant\<close>

lemma buf_inv_upd [simp]:
  "buf_inv (s\<lparr>wpos_private := w\<rparr>) = buf_inv s"
  "buf_inv (s\<lparr>rpos := r\<rparr>) = buf_inv s"
  "buf_inv (s\<lparr>allocs := k\<rparr>) = buf_inv s"
  "buf_inv (s\<lparr>block_size := B\<rparr>) = buf_inv s"
  by (simp_all add: buf_inv_def rep_def)

lemma notify_inv: "buf_inv s \<Longrightarrow> notify s = Inr s' \<Longrightarrow> buf_inv s'"
proof -
  assume i: "buf_inv s" and n: "notify s = Inr s'"
  from i obtain segs pres frees where r: "rep s segs pres frees"
    "\<not> one_block_left s \<longrightarrow> 1 < length segs" by (auto simp: buf_inv_def)
  from notify_rep[OF r(1)] n obtain b where
    "s' = s\<lparr>buf := b\<rparr>" "rep s' (butlast segs @ [(fst (last segs), wpos_private s)]) pres frees"
    by auto
  then show ?thesis using r(2) unfolding buf_inv_def
    by (intro exI[of _ "butlast segs @ [(fst (last segs), wpos_private s)]"] exI[of _ pres] exI[of _ frees])
       auto
qed

lemma add_block_inv: "buf_inv s \<Longrightarrow> add_block s = Inr s' \<Longrightarrow> buf_inv s'"
proof -
  assume i: "buf_inv s" and n: "add_block s = Inr s'"
  from i obtain segs pres frees where r: "rep s segs pres frees"
    "\<not> one_block_left s \<longrightarrow> 1 < length segs" by (auto simp: buf_inv_def)
  let ?segs = "butlast segs @ [(fst (last segs), wpos_private s),
                 (if frees = [] then Some (new_block s) else hd frees, 0)]"
  from add_block_rep[OF r(1)] n obtain b fl a where
    "s' = s\<lparr>buf := b, free_list := fl, wpos := Some a, wpos_private := 0,
                   allocs := (if frees = [] then Suc (allocs s) else allocs s)\<rparr>"
    "rep s' ?segs pres (tl frees)"
    by auto
  then show ?thesis unfolding buf_inv_def
    by (intro exI[of _ ?segs] exI[of _ pres] exI[of _ "tl frees"]) auto
qed

lemma copy_to_back_inv: "buf_inv s \<Longrightarrow> copy_to_back s bytes = Inr s' \<Longrightarrow> buf_inv s'"
proof -
  assume i: "buf_inv s" and n: "copy_to_back s bytes = Inr s'"
  from i obtain segs pres frees where r: "rep s segs pres frees"
    "\<not> one_block_left s \<longrightarrow> 1 < length segs" by (auto simp: buf_inv_def)
  note c = copy_to_back_rep[OF r(1), of bytes]
  show ?thesis
  proof (cases "bytes = []")
    case True
    then show ?thesis using c n i by simp
  next
    case False
    with c n obtain blk where blk: "fst (last segs) = Some blk"
      "wpos_private s + length bytes \<le> length blk"
      by (auto split: option.splits if_splits)
    let ?segs = "butlast segs @ [(Some (take (wpos_private s) blk @ bytes @
                     drop (wpos_private s + length bytes) blk), snd (last segs))]"
    from c False blk n obtain b where "s' = s\<lparr>buf := b\<rparr>" "rep s' ?segs pres frees" by auto
    then show ?thesis using r(2) unfolding buf_inv_def
      by (intro exI[of _ ?segs] exI[of _ pres] exI[of _ frees]) auto
  qed
qed

lemma clear_preserved_inv: "buf_inv s \<Longrightarrow> clear_preserved s len = Inr s' \<Longrightarrow> buf_inv s'"
proof -
  assume i: "buf_inv s" and n: "clear_preserved s len = Inr s'"
  from i obtain segs pres frees where r: "rep s segs pres frees"
    "\<not> one_block_left s \<longrightarrow> 1 < length segs" by (auto simp: buf_inv_def)
  from clear_preserved_rep[OF r(1), of len] n obtain fl pl where
    "s' = s\<lparr>free_list := fl, preserved_list := pl\<rparr>"
    "rep s' segs (drop (clear_count pres len 0) pres)
         (frees @ map fst (take (clear_count pres len 0) pres))" by auto
  then show ?thesis using r(2) unfolding buf_inv_def by auto
qed

lemma pop_block_if_needed_inv:
  "buf_inv s \<Longrightarrow> pop_block_if_needed s sz = Inr s' \<Longrightarrow> buf_inv s'"
proof -
  assume i: "buf_inv s" and n: "pop_block_if_needed s sz = Inr s'"
  from i obtain segs pres frees where r: "rep s segs pres frees"
    "\<not> one_block_left s \<longrightarrow> 1 < length segs" by (auto simp: buf_inv_def)
  note c = check_one_block_left_rep[OF r(1)] and e = front_end_rep[OF r(1)]
  show ?thesis
  proof (cases "s' = s")
    case True
    then show ?thesis using i by simp
  next
    case False
    with n c e have p: "pop_block s = Inr s'" and l: "length segs \<noteq> 1"
      using r(2) by (auto simp: pop_block_if_needed_def split: if_splits)
    have "segs \<noteq> []" using r(1) by (auto simp: rep_def brep_def)
    with l obtain x y rest where segs: "segs = x # y # rest"
      by (cases segs; cases "tl segs") auto
    from pop_block_rep[OF r(1)[unfolded segs]] p obtain b pl where
      "s' = s\<lparr>buf := b, preserved_list := pl, rpos := 0, one_block_left := (rest = [])\<rparr>"
      "rep s' (y # rest) (pres @ [x]) frees" by auto
    then show ?thesis unfolding buf_inv_def
      by (intro exI[of _ "y # rest"] exI[of _ "pres @ [x]"] exI[of _ frees]) auto
  qed
qed

lemma write_loop_Nil [simp]: "write_loop s [] = Inr s"
  by (simp add: write_loop.simps)

lemma write_loop_inv: "buf_inv s \<Longrightarrow> write_loop s bytes = Inr s' \<Longrightarrow> buf_inv s'"
proof (induction s bytes rule: write_loop.induct)
  case (1 s bytes)
  show ?case
  proof (cases "bytes = []")
    case True
    then show ?thesis using "1.prems" by simp
  next
    case False
    from "1.prems"(2) False obtain s1 s2 where
      s1: "add_block_if_needed s = Inr s1" and
      s2: "copy_to_back s1 (take (min (length bytes) (sz_sub (block_size s1) (wpos_private s1))) bytes) = Inr s2" and
      nz: "min (length bytes) (sz_sub (block_size s1) (wpos_private s1)) \<noteq> 0" and
      rec: "write_loop (s2\<lparr>wpos_private := sz_add (wpos_private s2)
               (min (length bytes) (sz_sub (block_size s1) (wpos_private s1)))\<rparr>)
              (drop (min (length bytes) (sz_sub (block_size s1) (wpos_private s1))) bytes) = Inr s'"
      by (subst (asm) write_loop.simps) (auto simp: bindF_eq_Inr Let_def split: if_splits)
    have i1: "buf_inv s1" using s1 "1.prems"(1) add_block_inv
      by (auto simp: add_block_if_needed_def split: if_splits)
    have i2: "buf_inv s2" using copy_to_back_inv[OF i1 s2] .
    show ?thesis
      using "1.IH"[OF False s1 refl s2 nz _ rec] i2 by simp
  qed
qed


lemma init_inv:
  assumes "q_holds (buf s) segs" "q_holds (preserved_list s) pres" "q_holds (free_list s) frees"
    "init pagesz s bs = Inr s'"
  shows "buf_inv s'"
proof -
  let ?s1 = "s\<lparr>rpos := 0, wpos_private := 0, one_block_left := True,
                 block_size := (if bs = - 1 then pagesz else to_size bs)\<rparr>"
  from brep_emplace[OF assms(1), of "(Some (new_block ?s1), 0)"] obtain b a where
    b: "q_emplace (buf s) (Some (new_block ?s1), 0) = Inr b" "back_ref b = Inr a"
       "brep b (Some a) (segs @ [(Some (new_block ?s1), 0)])" by blast
  have "s' = ?s1\<lparr>buf := b, allocs := Suc (allocs s), wpos := Some a\<rparr>"
    using assms(4) b(1,2) by (simp add: init_def Let_def)
  then show ?thesis unfolding buf_inv_def rep_def
    using b(3) assms(2,3)
    by (intro exI[of _ "segs @ [(Some (new_block ?s1), 0)]"] exI[of _ pres] exI[of _ frees]) simp
qed

lemma init_unset_inv: "init pagesz (unset u) bs = Inr s \<Longrightarrow> buf_inv s"
  by (rule init_inv[of "unset u" "[]" "[]" "[]"]) (simp_all add: unset_def q_holds_init)

lemma reinit_inv: "buf_inv s \<Longrightarrow> init pagesz s bs = Inr s' \<Longrightarrow> buf_inv s'"
  unfolding buf_inv_def rep_def using init_inv brep_holds by (metis buf_inv_def rep_def)

lemma write_range_inv: "buf_inv s \<Longrightarrow> write_range s bytes n = Inr s' \<Longrightarrow> buf_inv s'"
  by (auto simp: write_range_def bindF_eq_Inr split: if_splits
           dest: write_loop_inv notify_inv)

lemma write_string_inv: "buf_inv s \<Longrightarrow> write_string s str n = Inr s' \<Longrightarrow> buf_inv s'"
  by (auto simp: write_string_def write_T_def bindF_eq_Inr dest: write_range_inv)

lemma read_T_inv: "buf_inv s \<Longrightarrow> read_T s k = Inr (res, s') \<Longrightarrow> buf_inv s'"
  by (auto simp: read_T_def bindF_eq_Inr dest: pop_block_if_needed_inv)

lemma read_cont_inv: "buf_inv s \<Longrightarrow> read_cont s k = Inr (res, s') \<Longrightarrow> buf_inv s'"
  by (auto simp: read_cont_def bindF_eq_Inr dest: pop_block_if_needed_inv)

lemma get_T_inv: "buf_inv s \<Longrightarrow> get_T s k = Inr (res, s') \<Longrightarrow> buf_inv s'"
  by (auto simp: get_T_def bindF_eq_Inr dest: read_T_inv clear_preserved_inv)

lemma get_cont_inv: "buf_inv s \<Longrightarrow> get_cont s k = Inr (res, s') \<Longrightarrow> buf_inv s'"
proof -
  assume i: "buf_inv s" and g: "get_cont s k = Inr (res, s')"
  from g obtain s1 where s1: "pop_block_if_needed s k = Inr s1"
    and c: "clear_preserved (s1\<lparr>rpos := sz_add (rpos s1) k\<rparr>) k = Inr s'"
    by (auto simp: get_cont_def bindF_eq_Inr)
  have "buf_inv (s1\<lparr>rpos := sz_add (rpos s1) k\<rparr>)"
    using pop_block_if_needed_inv[OF i s1] by simp
  from clear_preserved_inv[OF this c] show ?thesis .
qed

lemma get_string_inv: "buf_inv s \<Longrightarrow> get_string s = Inr (str, s') \<Longrightarrow> buf_inv s'"
proof -
  assume i: "buf_inv s" and g: "get_string s = Inr (str, s')"
  from g obtain rp s1 s2 where r: "read_T s 8 = Inr (rp, s1)"
    and s2: "pop_block_if_needed s1 (decode_size rp) = Inr s2"
    and c: "clear_preserved (s2\<lparr>rpos := sz_add (rpos s2) (decode_size rp)\<rparr>)
              (sz_add 8 (decode_size rp)) = Inr s'"
    by (auto simp: get_string_def bindF_eq_Inr Let_def)
  have "buf_inv (s2\<lparr>rpos := sz_add (rpos s2) (decode_size rp)\<rparr>)"
    using pop_block_if_needed_inv[OF read_T_inv[OF i r] s2] by simp
  from clear_preserved_inv[OF this c] show ?thesis .
qed

lemma add_block_if_needed_inv: "buf_inv s \<Longrightarrow> add_block_if_needed s = Inr s' \<Longrightarrow> buf_inv s'"
  by (auto simp: add_block_if_needed_def split: if_splits dest: add_block_inv)

lemma add_block_if_needed_cont_inv:
  "buf_inv s \<Longrightarrow> add_block_if_needed_cont s k = Inr s' \<Longrightarrow> buf_inv s'"
  by (auto simp: add_block_if_needed_cont_def split: if_splits dest: add_block_inv)

lemma write_cont_range_inv:
  "buf_inv s \<Longrightarrow> write_cont_range s bytes n = Inr s' \<Longrightarrow> buf_inv s'"
proof -
  assume i: "buf_inv s" and w: "write_cont_range s bytes n = Inr s'"
  show ?thesis
  proof (cases "bytes = []")
    case True
    then show ?thesis using i w by (simp add: write_cont_range_def)
  next
    case False
    with w obtain s1 s2 where s1: "add_block_if_needed_cont s (length bytes) = Inr s1"
      and s2: "copy_to_back s1 bytes = Inr s2"
      and n: "(if n then notify (s2\<lparr>wpos_private := sz_add (wpos_private s2) (length bytes)\<rparr>)
               else Inr (s2\<lparr>wpos_private := sz_add (wpos_private s2) (length bytes)\<rparr>)) = Inr s'"
      by (auto simp: write_cont_range_def bindF_eq_Inr Let_def)
    have i3: "buf_inv (s2\<lparr>wpos_private := sz_add (wpos_private s2) (length bytes)\<rparr>)"
      using copy_to_back_inv[OF add_block_if_needed_cont_inv[OF i s1] s2] by simp
    show ?thesis
    proof (cases n)
      case True
      then show ?thesis using n notify_inv[OF i3] by simp
    next
      case False
      then show ?thesis using n i3 by simp
    qed
  qed
qed

lemma write_cont_string_inv:
  "buf_inv s \<Longrightarrow> write_cont_string s str n = Inr s' \<Longrightarrow> buf_inv s'"
  by (auto simp: write_cont_string_def write_cont_T_def bindF_eq_Inr dest: write_cont_range_inv)

lemma ensure_cont_inv: "buf_inv s \<Longrightarrow> ensure_cont s k = Inr (p, s') \<Longrightarrow> buf_inv s'"
  by (auto simp: ensure_cont_def bindF_eq_Inr dest: add_block_if_needed_cont_inv)

lemma empty_inv: "buf_inv s \<Longrightarrow> empty s = Inr (e, s') \<Longrightarrow> buf_inv s'"
proof -
  assume i: "buf_inv s" and e: "empty s = Inr (e, s')"
  from i obtain segs pres frees where r: "rep s segs pres frees"
    "\<not> one_block_left s \<longrightarrow> 1 < length segs" by (auto simp: buf_inv_def)
  have ne: "segs \<noteq> []" using r(1) by (auto simp: rep_def brep_def)
  note c = check_one_block_left_rep[OF r(1)]
  from e c have "s' = s \<or> s' = s\<lparr>one_block_left := (length segs = 1)\<rparr>"
    by (auto simp: empty_def bindF_eq_Inr Let_def split: if_splits)
  then show ?thesis
  proof
    assume "s' = s" then show ?thesis using i by simp
  next
    assume s': "s' = s\<lparr>one_block_left := (length segs = 1)\<rparr>"
    have "rep s' segs pres frees" using r(1) by (simp add: s' rep_def)
    moreover have "\<not> one_block_left s' \<longrightarrow> 1 < length segs" using ne
      by (cases segs) (auto simp: s')
    ultimately show ?thesis unfolding buf_inv_def by blast
  qed
qed

lemma input_done_inv: "buf_inv s \<Longrightarrow> input_done s t rs = Inr (ret, s', rest) \<Longrightarrow> buf_inv s'"
  by (auto simp: input_done_def bindF_eq_Inr split: if_splits dest: notify_inv)

lemma input_loop_inv:
  "buf_inv s \<Longrightarrow> input_loop s cont max_len t rs = Inr (ret, s', rest) \<Longrightarrow> buf_inv s'"
proof (induction rs arbitrary: s t)
  case Nil
  then show ?case by simp
next
  case (Cons r rs)
  from Cons.prems(2) obtain s1 where s1: "add_block_if_needed s = Inr s1"
    by (auto simp: bindF_eq_Inr)
  have i1: "buf_inv s1" using add_block_if_needed_inv[OF Cons.prems(1) s1] .
  show ?case
  proof (cases "fst r \<le> 0")
    case True
    then show ?thesis using Cons.prems(2) s1 i1 input_done_inv[OF i1]
      by (auto simp: Let_def split: if_splits)
  next
    case False
    with Cons.prems(2) s1 obtain s2 where s2: "copy_to_back s1 (snd r) = Inr s2"
      and rec: "(if cont then input_done (s2\<lparr>wpos_private := sz_add (wpos_private s2) (to_size (fst r))\<rparr>)
                       (t + fst r) rs
                else input_loop (s2\<lparr>wpos_private := sz_add (wpos_private s2) (to_size (fst r))\<rparr>)
                       cont max_len (t + fst r) rs) = Inr (ret, s', rest)"
      by (auto simp: Let_def bindF_eq_Inr split: if_splits)
    have i3: "buf_inv (s2\<lparr>wpos_private := sz_add (wpos_private s2) (to_size (fst r))\<rparr>)"
      using copy_to_back_inv[OF i1 s2] by simp
    show ?thesis
    proof (cases cont)
      case True
      then show ?thesis using rec input_done_inv[OF i3] by simp
    next
      case False
      then show ?thesis using rec Cons.IH[OF i3] by simp
    qed
  qed
qed

lemma output_loop_inv:
  "buf_inv s \<Longrightarrow> output_loop s t ws = Inr (ret, s', rest) \<Longrightarrow> buf_inv s'"
proof (induction ws arbitrary: s t)
  case Nil
  then show ?case by simp
next
  case (Cons len ws)
  from Cons.prems(2) obtain s1 where s1: "pop_block_if_needed s 1 = Inr s1"
    by (auto simp: bindF_eq_Inr pop_block_if_needed_and_available_def)
  have i1: "buf_inv s1" using pop_block_if_needed_inv[OF Cons.prems(1) s1] .
  have d: "output_done s1 t' ws = Inr (ret, s', rest) \<Longrightarrow> buf_inv s'" for t'
    using clear_preserved_inv[OF i1] by (auto simp: output_done_def bindF_eq_Inr)
  show ?case
  proof (cases "len \<le> 0")
    case True
    then show ?thesis using Cons.prems(2) s1 i1 d
      by (auto simp: pop_block_if_needed_and_available_def bindF_eq_Inr split: if_splits)
  next
    case False
    with Cons.prems(2) s1 have
      rec: "output_loop (s1\<lparr>rpos := sz_add (rpos s1) (to_size len)\<rparr>) (t + len) ws = Inr (ret, s', rest)"
      by (auto simp: pop_block_if_needed_and_available_def bindF_eq_Inr split: if_splits)
    have "buf_inv (s1\<lparr>rpos := sz_add (rpos s1) (to_size len)\<rparr>)" using i1 by simp
    from Cons.IH[OF this rec] show ?thesis .
  qed
qed

lemma reachable_inv: "reachable s \<Longrightarrow> buf_inv s"
proof (induction rule: reachable.induct)
  case (r_construct pagesz u bs s)
  then show ?case by (rule init_unset_inv)
next
  case (r_init s pagesz bs s')
  then show ?case using reinit_inv by blast
next
  case (r_write_range s bytes n s')
  then show ?case using write_range_inv by blast
next
  case (r_write_T s bytes n s')
  then show ?case using write_range_inv by (auto simp: write_T_def)
next
  case (r_write_string s str n s')
  then show ?case using write_string_inv by blast
next
  case (r_read_T s k res s')
  then show ?case using read_T_inv by blast
next
  case (r_get_T s k res s')
  then show ?case using get_T_inv by blast
next
  case (r_read_cont s k res s')
  then show ?case using read_cont_inv by blast
next
  case (r_get_cont s k res s')
  then show ?case using get_cont_inv by blast
next
  case (r_get_string s str s')
  then show ?case using get_string_inv by blast
next
  case (r_write_cont_range s bytes n s')
  then show ?case using write_cont_range_inv by blast
next
  case (r_write_cont_T s bytes n s')
  then show ?case using write_cont_range_inv by (auto simp: write_cont_T_def)
next
  case (r_write_cont_string s str n s')
  then show ?case using write_cont_string_inv by blast
next
  case (r_input_from_fd s cont max_len rs ret s' rest)
  then show ?case using input_loop_inv by (auto simp: input_from_fd_def)
next
  case (r_output_to_fd s ws ret s' rest')
  then show ?case using output_loop_inv by (auto simp: output_to_fd_def)
next
  case (r_notify s s')
  then show ?case using notify_inv by blast
next
  case (r_ensure_cont s k p s')
  then show ?case using ensure_cont_inv by blast
next
  case (r_empty s e s')
  then show ?case using empty_inv by blast
next
  case (r_clear_preserved s k s')
  then show ?case using clear_preserved_inv by blast
qed

subsection \<open>What the file-descriptor loops return\<close>







section \<open>The buffer does what its view does\<close>

lemma rel_res_bind:
  assumes "rel_res P m m'" "\<And>x y. P x y \<Longrightarrow> rel_res Q (f x) (g y)"
  shows "rel_res Q (bindF m f) (bindF m' g)"
proof (cases m')
  case (Inl e)
  then show ?thesis using assms(1) by (simp add: rel_res_def)
next
  case (Inr y)
  with assms(1) obtain x where "m = Inr x" "P x y" by (auto simp: rel_res_def)
  then show ?thesis using assms(2)[of x y] Inr by simp
qed

lemma rel_res_bind_eq:
  assumes "rel_res P m m'"
    "\<And>x y. m = Inr x \<Longrightarrow> m' = Inr y \<Longrightarrow> P x y \<Longrightarrow> rel_res Q (f x) (g y)"
  shows "rel_res Q (bindF m f) (bindF m' g)"
proof (cases m')
  case (Inl e)
  then show ?thesis using assms(1) by (simp add: rel_res_def)
next
  case (Inr y)
  with assms(1) obtain x where "m = Inr x" "P x y" by (auto simp: rel_res_def)
  then show ?thesis using assms(2)[of x y] Inr by simp
qed

lemma rel_res_Inr [simp]: "rel_res P (Inr x) (Inr y) = P x y"
  by (simp add: rel_res_def)

lemma rel_res_Inl [simp]: "rel_res P m (Inl e) = (m = Inl e)"
  by (simp add: rel_res_def)

lemma rel_res_InrD: "rel_res P m (Inr y) \<Longrightarrow> \<exists>x. m = Inr x \<and> P x y"
  by (simp add: rel_res_def)

lemma sees_rep: "sees s v \<Longrightarrow> rep s (v_segs v) (v_pres v) (v_frees v)"
  by (simp add: sees_def)

lemma sees_upd:
  "sees s v \<Longrightarrow> sees (s\<lparr>wpos_private := x\<rparr>) (v\<lparr>v_wpos_private := x\<rparr>)"
  "sees s v \<Longrightarrow> sees (s\<lparr>rpos := x\<rparr>) (v\<lparr>v_rpos := x\<rparr>)"
  "sees s v \<Longrightarrow> sees (s\<lparr>one_block_left := b\<rparr>) (v\<lparr>v_one_block_left := b\<rparr>)"
  by (simp_all add: sees_def rep_def)

lemma v_new_block_eq: "sees s v \<Longrightarrow> new_block s = v_new_block v"
  by (simp add: sees_def new_block_def v_new_block_def)

lemma sim_notify: "sees s v \<Longrightarrow> sim (notify s) (Inr (v_notify v))"
proof -
  assume a: "sees s v"
  from notify_rep[OF sees_rep[OF a]] obtain b where
    "notify s = Inr (s\<lparr>buf := b\<rparr>)"
    "rep (s\<lparr>buf := b\<rparr>) (butlast (v_segs v) @ [(fst (last (v_segs v)), wpos_private s)])
        (v_pres v) (v_frees v)" by blast
  then show ?thesis using a by (simp add: sim_def sees_def v_notify_def)
qed

lemma sim_add_block: "sees s v \<Longrightarrow> sim (add_block s) (Inr (v_add_block v))"
proof -
  assume a: "sees s v"
  from add_block_rep[OF sees_rep[OF a]] obtain b fl x where
    "add_block s = Inr (s\<lparr>buf := b, free_list := fl, wpos := Some x, wpos_private := 0,
                   allocs := (if v_frees v = [] then Suc (allocs s) else allocs s)\<rparr>)"
    "rep (s\<lparr>buf := b, free_list := fl, wpos := Some x, wpos_private := 0,
                   allocs := (if v_frees v = [] then Suc (allocs s) else allocs s)\<rparr>)
              (butlast (v_segs v) @ [(fst (last (v_segs v)), wpos_private s),
                 (if v_frees v = [] then Some (new_block s) else hd (v_frees v), 0)])
              (v_pres v) (tl (v_frees v))" by blast
  then show ?thesis using a v_new_block_eq[OF a]
    by (cases "v_frees v = []") (simp_all add: sim_def sees_def v_add_block_def)
qed

lemma sim_add_block_if_needed:
  "sees s v \<Longrightarrow> sim (add_block_if_needed s) (Inr (v_add_block_if_needed v))"
  using sim_add_block[of s v]
  by (auto simp: add_block_if_needed_def v_add_block_if_needed_def sim_def sees_def)

lemma sim_add_block_if_needed_cont:
  "sees s v \<Longrightarrow> sim (add_block_if_needed_cont s k) (Inr (v_add_block_if_needed_cont v k))"
  using sim_add_block[of s v]
  by (auto simp: add_block_if_needed_cont_def v_add_block_if_needed_cont_def sim_def sees_def)

lemma sim_copy_to_back: "sees s v \<Longrightarrow> sim (copy_to_back s bytes) (v_copy_to_back v bytes)"
proof -
  assume a: "sees s v"
  note c = copy_to_back_rep[OF sees_rep[OF a], of bytes]
  have w: "wpos_private s = v_wpos_private v" using a by (simp add: sees_def)
  show ?thesis
  proof (cases "bytes = []")
    case True
    then show ?thesis using c a by (simp add: v_copy_to_back_def sim_def)
  next
    case False
    show ?thesis
    proof (cases "fst (last (v_segs v))")
      case None
      then show ?thesis using c False by (simp add: v_copy_to_back_def sim_def)
    next
      case (Some blk)
      show ?thesis
      proof (cases "wpos_private s + length bytes \<le> length blk")
        case True
        with c False Some obtain b where
          "copy_to_back s bytes = Inr (s\<lparr>buf := b\<rparr>)"
          "rep (s\<lparr>buf := b\<rparr>)
                (butlast (v_segs v) @ [(Some (take (wpos_private s) blk @ bytes @
                     drop (wpos_private s + length bytes) blk), snd (last (v_segs v)))])
                (v_pres v) (v_frees v)" by blast
        then show ?thesis using a False Some True w
          by (simp add: v_copy_to_back_def sim_def sees_def)
      next
        case f: False
        then show ?thesis using c False Some w by (simp add: v_copy_to_back_def sim_def)
      qed
    qed
  qed
qed

lemma pop_block_single:
  assumes "rep s [x] pres frees"
  shows "pop_block s = Inl NullDeref"
proof -
  from assms have b: "brep (buf s) (wpos s) [x]" and p: "q_holds (preserved_list s) pres"
    by (simp_all add: rep_def)
  from brep_front[OF b] obtain r0 where
    r0: "front_ref (buf s) = Inr r0" "get_obj (buf s) r0 = Inr x"
      "\<forall>z. \<exists>b'. set_obj (buf s) r0 z = Inr b' \<and> brep b' (wpos s) (z # tl [x])" by auto
  from r0(3) obtain b1 where b1: "set_obj (buf s) r0 (None, snd x) = Inr b1"
    "brep b1 (wpos s) [(None, snd x)]" by auto
  then obtain ms1 fs1 where m1: "q_rep b1 ms1 fs1" "q_vals b1 ms1 = map Some [(None, snd x)]"
    by (auto simp: brep_def)
  then obtain n0 n1 where ms1: "ms1 = [n0, n1]"
    by (cases ms1; cases "tl ms1"; cases "tl (tl ms1)") (auto simp: q_vals_def)
  from q_pop_vals[OF m1(1)[unfolded ms1]] obtain b2 where
    b2: "q_pop b1 = Inr b2" "q_rep b2 [n1] (fs1 @ [n0])" by blast
  from q_holds_push[OF p, of x] obtain pl where pl: "q_push (preserved_list s) x = Inr pl"
    by blast
  have "head b2 = Some n1" "nxt (heap b2 ! n1) = None" "n1 < length (heap b2)"
    using b2(2) by (auto simp: q_rep_def)
  then have "front_ref b2 = Inl NullDeref" by (simp add: front_ref_def load_def)
  then show ?thesis using r0(1,2) b1(1) pl b2(1)
    by (simp add: pop_block_def check_one_block_left_def)
qed

lemma sim_pop_block: "sees s v \<Longrightarrow> sim (pop_block s) (v_pop_block v)"
proof -
  assume a: "sees s v"
  note r = sees_rep[OF a]
  have ne: "v_segs v \<noteq> []" using r by (auto simp: rep_def brep_def)
  show ?thesis
  proof (cases "length (v_segs v) = 1")
    case True
    then obtain x where x: "v_segs v = [x]" by (cases "v_segs v") auto
    then show ?thesis using pop_block_single[OF r[unfolded x]]
      by (simp add: v_pop_block_def sim_def)
  next
    case False
    with ne obtain x y rest where segs: "v_segs v = x # y # rest"
      by (cases "v_segs v"; cases "tl (v_segs v)") auto
    from pop_block_rep[OF r[unfolded segs]] obtain b pl where
      "pop_block s = Inr (s\<lparr>buf := b, preserved_list := pl, rpos := 0, one_block_left := (rest = [])\<rparr>)"
      "rep (s\<lparr>buf := b, preserved_list := pl, rpos := 0, one_block_left := (rest = [])\<rparr>)
              (y # rest) (v_pres v @ [x]) (v_frees v)" by blast
    then show ?thesis using a segs by (simp add: v_pop_block_def sim_def sees_def)
  qed
qed

lemma sim_pop_block_if_needed:
  "sees s v \<Longrightarrow> sim (pop_block_if_needed s k) (v_pop_block_if_needed v k)"
proof -
  assume a: "sees s v"
  note r = sees_rep[OF a]
  note c = check_one_block_left_rep[OF r] and e = front_end_rep[OF r]
  have f: "one_block_left s = v_one_block_left v" "rpos s = v_rpos v"
    using a by (simp_all add: sees_def)
  have id: "sim (Inr s) (Inr v)" using a by (simp add: sim_def)
  show ?thesis
    using c e f id sim_pop_block[OF a]
    by (simp add: pop_block_if_needed_def v_pop_block_if_needed_def)
qed

lemma front_slice_view: "sees s v \<Longrightarrow> front_slice s len = v_front_slice v len"
  using front_slice_rep[of s "v_segs v" "v_pres v" "v_frees v" len]
  by (auto simp: sees_def v_front_slice_def split: option.splits)

lemma sim_clear_preserved:
  "sees s v \<Longrightarrow> sim (clear_preserved s len) (Inr (v_clear_preserved v len))"
proof -
  assume a: "sees s v"
  from clear_preserved_rep[OF sees_rep[OF a], of len] obtain fl pl where
    "clear_preserved s len = Inr (s\<lparr>free_list := fl, preserved_list := pl\<rparr>)"
    "rep (s\<lparr>free_list := fl, preserved_list := pl\<rparr>) (v_segs v)
         (drop (clear_count (v_pres v) len 0) (v_pres v))
         (v_frees v @ map fst (take (clear_count (v_pres v) len 0) (v_pres v)))" by blast
  then show ?thesis using a by (simp add: sim_def sees_def v_clear_preserved_def)
qed


lemma v_write_loop_Nil [simp]: "v_write_loop v [] = Inr v"
  by (simp add: v_write_loop.simps)

lemma sim_write_loop: "sees s v \<Longrightarrow> sim (write_loop s bytes) (v_write_loop v bytes)"
proof (induction v bytes arbitrary: s rule: v_write_loop.induct)
  case (1 v bytes)
  show ?case
  proof (cases "bytes = []")
    case True
    then show ?thesis using "1.prems" by (simp add: sim_def)
  next
    case False
    let ?v1 = "v_add_block_if_needed v"
    let ?k = "min (length bytes) (sz_sub (v_block_size ?v1) (v_wpos_private ?v1))"
    from sim_add_block_if_needed[OF "1.prems"] obtain s1 where
      s1: "add_block_if_needed s = Inr s1" "sees s1 ?v1" by (auto simp: sim_def rel_res_def)
    have k: "min (length bytes) (sz_sub (block_size s1) (wpos_private s1)) = ?k"
      using s1(2) by (simp add: sees_def)
    have "sim (bindF (copy_to_back s1 (take ?k bytes)) (\<lambda>s2.
              if ?k = 0 then Inl Diverges
              else write_loop (s2\<lparr>wpos_private := sz_add (wpos_private s2) ?k\<rparr>) (drop ?k bytes)))
            (bindF (v_copy_to_back ?v1 (take ?k bytes)) (\<lambda>v2.
              if ?k = 0 then Inl Diverges
              else v_write_loop (v2\<lparr>v_wpos_private := sz_add (v_wpos_private v2) ?k\<rparr>) (drop ?k bytes)))"
      unfolding sim_def
    proof (rule rel_res_bind_eq[OF sim_copy_to_back[OF s1(2), unfolded sim_def]])
      fix s2 v2 assume a: "sees s2 v2"
        and c2: "v_copy_to_back ?v1 (take ?k bytes) = Inr v2"
      have w: "wpos_private s2 = v_wpos_private v2" using a by (simp add: sees_def)
      show "rel_res sees (if ?k = 0 then Inl Diverges
              else write_loop (s2\<lparr>wpos_private := sz_add (wpos_private s2) ?k\<rparr>) (drop ?k bytes))
             (if ?k = 0 then Inl Diverges
              else v_write_loop (v2\<lparr>v_wpos_private := sz_add (v_wpos_private v2) ?k\<rparr>) (drop ?k bytes))"
      proof (cases "?k = 0")
        case True
        then show ?thesis by simp
      next
        case nz: False
        have "sees (s2\<lparr>wpos_private := sz_add (v_wpos_private v2) ?k\<rparr>)
                   (v2\<lparr>v_wpos_private := sz_add (v_wpos_private v2) ?k\<rparr>)"
          by (rule sees_upd(1)[OF a])
        from "1.IH"[OF False refl refl c2 nz this]
        have ih: "rel_res sees
            (write_loop (s2\<lparr>wpos_private := sz_add (v_wpos_private v2) ?k\<rparr>) (drop ?k bytes))
            (v_write_loop (v2\<lparr>v_wpos_private := sz_add (v_wpos_private v2) ?k\<rparr>) (drop ?k bytes))"
          by (simp only: sim_def)
        show ?thesis by (simp only: if_not_P[OF nz] w) (rule ih)
      qed
    qed
    then show ?thesis
      by (subst write_loop.simps, subst v_write_loop.simps)
         (simp only: False if_False s1(1) bindF_Inr Let_def k)
  qed
qed

lemma sim_write_range:
  "sees s v \<Longrightarrow> sim (write_range s bytes n) (v_write_range v bytes n)"
  unfolding write_range_def v_write_range_def sim_def
  by (rule rel_res_bind[OF sim_write_loop[unfolded sim_def]])
     (use sim_notify[unfolded sim_def] in auto)

lemma sim_write_string:
  "sees s v \<Longrightarrow> sim (write_string s str n) (v_write_string v str n)"
  unfolding write_string_def v_write_string_def write_T_def sim_def
  by (rule rel_res_bind[OF sim_write_range[unfolded sim_def]])
     (use sim_write_range[unfolded sim_def] in auto)

lemma sim_write_cont_range:
  "sees s v \<Longrightarrow> sim (write_cont_range s bytes n) (v_write_cont_range v bytes n)"
proof -
  assume a: "sees s v"
  show ?thesis
  proof (cases "bytes = []")
    case True
    then show ?thesis using a by (simp add: write_cont_range_def v_write_cont_range_def sim_def)
  next
    case False
    from sim_add_block_if_needed_cont[OF a, of "length bytes"] obtain s1 where
      s1: "add_block_if_needed_cont s (length bytes) = Inr s1"
          "sees s1 (v_add_block_if_needed_cont v (length bytes))" by (auto simp: sim_def rel_res_def)
    have "rel_res sees (bindF (copy_to_back s1 bytes) (\<lambda>s2.
             let s3 = s2\<lparr>wpos_private := sz_add (wpos_private s2) (length bytes)\<rparr>
             in if n then notify s3 else Inr s3))
          (bindF (v_copy_to_back (v_add_block_if_needed_cont v (length bytes)) bytes) (\<lambda>v2.
             let v3 = v2\<lparr>v_wpos_private := sz_add (v_wpos_private v2) (length bytes)\<rparr>
             in Inr (if n then v_notify v3 else v3)))"
    proof (rule rel_res_bind[OF sim_copy_to_back[OF s1(2), unfolded sim_def]])
      fix s2 v2 assume b: "sees s2 v2"
      have w: "wpos_private s2 = v_wpos_private v2" using b by (simp add: sees_def)
      have c: "sees (s2\<lparr>wpos_private := sz_add (v_wpos_private v2) (length bytes)\<rparr>)
                   (v2\<lparr>v_wpos_private := sz_add (v_wpos_private v2) (length bytes)\<rparr>)"
        by (rule sees_upd(1)[OF b])
      show "rel_res sees (let s3 = s2\<lparr>wpos_private := sz_add (wpos_private s2) (length bytes)\<rparr>
             in if n then notify s3 else Inr s3)
             (let v3 = v2\<lparr>v_wpos_private := sz_add (v_wpos_private v2) (length bytes)\<rparr>
             in Inr (if n then v_notify v3 else v3))"
        using c sim_notify[OF c, unfolded sim_def] w by (simp add: Let_def)
    qed
    then show ?thesis using False s1(1)
      by (simp add: write_cont_range_def v_write_cont_range_def sim_def)
  qed
qed

lemma sim_write_cont_string:
  "sees s v \<Longrightarrow> sim (write_cont_string s str n) (v_write_cont_string v str n)"
  unfolding write_cont_string_def v_write_cont_string_def write_cont_T_def sim_def
  by (rule rel_res_bind[OF sim_write_cont_range[unfolded sim_def]])
     (use sim_write_cont_range[unfolded sim_def] in auto)

lemma simr_read_T: "sees s v \<Longrightarrow> simr (read_T s k) (v_read_T v k)"
  unfolding read_T_def v_read_T_def simr_def
proof (rule rel_res_bind[OF sim_pop_block_if_needed[unfolded sim_def]])
  fix s1 v1 assume a: "sees s1 v1"
  have r: "rpos s1 = v_rpos v1" using a by (simp add: sees_def)
  show "rel_res (\<lambda>x y. fst x = fst y \<and> sees (snd x) (snd y))
          (bindF (front_slice s1 k) (\<lambda>res. Inr (res, s1\<lparr>rpos := sz_add (rpos s1) k\<rparr>)))
          (bindF (v_front_slice v1 k) (\<lambda>res. Inr (res, v1\<lparr>v_rpos := sz_add (v_rpos v1) k\<rparr>)))"
    using front_slice_view[OF a, of k] sees_upd(2)[OF a, of "sz_add (v_rpos v1) k"] r
    by (cases "v_front_slice v1 k") simp_all
qed

lemma simr_read_cont: "sees s v \<Longrightarrow> simr (read_cont s k) (v_read_T v k)"
  using simr_read_T[of s v k] by (simp add: read_cont_def read_T_def)

lemma simr_get_string: "sees s v \<Longrightarrow> simr (get_string s) (v_get_string v)"
  unfolding get_string_def v_get_string_def simr_def
proof (rule rel_res_bind[OF simr_read_T[unfolded simr_def]])
  fix x :: "char list \<times> buffer" and y :: "char list \<times> view"
  assume a: "fst x = fst y \<and> sees (snd x) (snd y)"
  obtain rp s1 where x: "x = (rp, s1)" by (cases x)
  obtain rp' v1 where y: "y = (rp', v1)" by (cases y)
  from a x y have rp: "rp' = rp" and s1: "sees s1 v1" by auto
  let ?len = "decode_size rp"
  have "rel_res (\<lambda>x y. fst x = fst y \<and> sees (snd x) (snd y))
          (bindF (pop_block_if_needed s1 ?len) (\<lambda>s2.
           bindF (front_slice s2 ?len) (\<lambda>str.
           bindF (clear_preserved (s2\<lparr>rpos := sz_add (rpos s2) ?len\<rparr>) (sz_add 8 ?len)) (\<lambda>s3.
           Inr (str, s3)))))
          (bindF (v_pop_block_if_needed v1 ?len) (\<lambda>v2.
           bindF (v_front_slice v2 ?len) (\<lambda>str.
           Inr (str, v_clear_preserved (v2\<lparr>v_rpos := sz_add (v_rpos v2) ?len\<rparr>) (sz_add 8 ?len)))))"
  proof (rule rel_res_bind[OF sim_pop_block_if_needed[OF s1, unfolded sim_def]])
    fix s2 v2 assume b: "sees s2 v2"
    have r: "rpos s2 = v_rpos v2" using b by (simp add: sees_def)
    note c = sim_clear_preserved[OF sees_upd(2)[OF b, of "sz_add (v_rpos v2) ?len"],
        of "sz_add 8 ?len", unfolded sim_def]
    show "rel_res (\<lambda>x y. fst x = fst y \<and> sees (snd x) (snd y))
           (bindF (front_slice s2 ?len) (\<lambda>str.
           bindF (clear_preserved (s2\<lparr>rpos := sz_add (rpos s2) ?len\<rparr>) (sz_add 8 ?len)) (\<lambda>s3.
           Inr (str, s3))))
           (bindF (v_front_slice v2 ?len) (\<lambda>str.
           Inr (str, v_clear_preserved (v2\<lparr>v_rpos := sz_add (v_rpos v2) ?len\<rparr>) (sz_add 8 ?len))))"
      using front_slice_view[OF b, of ?len] c r
      by (cases "v_front_slice v2 ?len") (auto simp: rel_res_def)
  qed
  then show "rel_res (\<lambda>x y. fst x = fst y \<and> sees (snd x) (snd y))
          (case x of (rp, s1) \<Rightarrow>
             let len = decode_size rp in
             bindF (pop_block_if_needed s1 len) (\<lambda>s2.
             bindF (front_slice s2 len) (\<lambda>str.
             bindF (clear_preserved (s2\<lparr>rpos := sz_add (rpos s2) len\<rparr>) (sz_add 8 len)) (\<lambda>s3.
             Inr (str, s3)))))
          (case y of (rp, v1) \<Rightarrow>
             let len = decode_size rp in
             bindF (v_pop_block_if_needed v1 len) (\<lambda>v2.
             bindF (v_front_slice v2 len) (\<lambda>str.
             Inr (str, v_clear_preserved (v2\<lparr>v_rpos := sz_add (v_rpos v2) len\<rparr>) (sz_add 8 len)))))"
    by (simp add: x y rp Let_def)
qed

subsection \<open>\<^verbatim>\<open>write_cont\<close> on a well-formed view\<close>

lemma sz_sub_le [simp]: "b \<le> a \<Longrightarrow> sz_sub a b = a - b"
  by (simp add: sz_sub_def)

lemma sz_add_small: "a + b < 2 ^ 64 \<Longrightarrow> sz_add a b = a + b"
  by (simp add: sz_add_def)

lemma v_wf_tail:
  "v_wf v \<Longrightarrow> \<exists>blk. fst (last (v_segs v)) = Some blk \<and> length blk = v_block_size v"
  using last_in_set[of "v_segs v"] by (auto simp: v_wf_def)

lemma v_wf_head:
  "v_wf v \<Longrightarrow> \<exists>blk. fst (hd (v_segs v)) = Some blk \<and> length blk = v_block_size v"
  using hd_in_set[of "v_segs v"] by (auto simp: v_wf_def)

lemma v_new_block_length [simp]: "length (v_new_block v) = v_block_size v"
  by (simp add: v_new_block_def)

lemma v_next_block_length: "v_wf v \<Longrightarrow> length (v_next_block v) = v_block_size v"
  by (cases "v_frees v") (auto simp: v_next_block_def v_wf_def)

lemma v_next_block_Some:
  "v_wf v \<Longrightarrow> (if v_frees v = [] then Some (v_new_block v) else hd (v_frees v)) = Some (v_next_block v)"
  by (cases "v_frees v") (auto simp: v_next_block_def v_wf_def)

lemma overlay_length [simp]: "at + length bytes \<le> length blk \<Longrightarrow> length (overlay blk at bytes) = length blk"
  by (simp add: overlay_def)

lemma overlay_slice [simp]:
  "at + length bytes \<le> length blk \<Longrightarrow> take (length bytes) (drop at (overlay blk at bytes)) = bytes"
  by (simp add: overlay_def)

lemma v_write_cont_range_wf:
  assumes "v_wf v" "bytes \<noteq> []" "length bytes \<le> v_block_size v"
    "fst (last (v_segs v)) = Some tb"
  shows "v_write_cont_range v bytes n = Inr
    (let w = v_wpos_private v; k = length bytes;
         fits = (k \<le> v_block_size v - w);
         start = (if fits then w else 0);
         blk' = overlay (if fits then tb else v_next_block v) start bytes;
         e' = (if n then start + k else if fits then snd (last (v_segs v)) else 0)
     in v\<lparr>v_segs := (if fits then butlast (v_segs v)
                      else butlast (v_segs v) @ [(Some tb, w)]) @ [(Some blk', e')],
          v_frees := (if fits then v_frees v else tl (v_frees v)),
          v_wpos_private := start + k,
          v_allocs := (if \<not> fits \<and> v_frees v = [] then Suc (v_allocs v) else v_allocs v)\<rparr>)"
proof -
  let ?w = "v_wpos_private v" and ?B = "v_block_size v" and ?k = "length bytes"
  have b: "?B < 2 ^ 64" "?w \<le> ?B" "length tb = ?B"
    using assms(1,4) v_wf_tail[OF assms(1)] by (auto simp: v_wf_def)
  show ?thesis
  proof (cases "?k \<le> ?B - ?w")
    case True
    then have nf: "\<not> ?k > sz_sub ?B ?w" using b by simp
    have le: "?w + ?k \<le> ?B" using True b by simp
    then have a: "sz_add ?w ?k = ?w + ?k" using b by (intro sz_add_small) simp
    show ?thesis using True nf le a b assms(2,4)
      by (simp add: v_write_cont_range_def v_add_block_if_needed_cont_def v_copy_to_back_def
          Let_def v_notify_def overlay_def)
  next
    case False
    then have f: "?k > sz_sub ?B ?w" using b by simp
    have a: "sz_add 0 ?k = ?k" using b assms(3) by (intro sz_add_small[THEN trans]) simp_all
    have l: "length (v_next_block v) = ?B" by (rule v_next_block_length[OF assms(1)])
    show ?thesis using False f a b l assms(2,3,4) v_next_block_Some[OF assms(1)]
      by (simp add: v_write_cont_range_def v_add_block_if_needed_cont_def v_copy_to_back_def
          v_add_block_def Let_def v_notify_def overlay_def butlast_append)
  qed
qed


lemma brepI:
  "q_rep b ms fs \<Longrightarrow> q_vals b ms = map Some segs \<Longrightarrow> segs \<noteq> [] \<Longrightarrow> w = Some (last ms) \<Longrightarrow>
   brep b w segs"
  by (auto simp: brep_def)

subsection \<open>Strings that are written unsplit\<close>

lemma length_enc [simp]: "length (enc k n) = k"
  by (induction k arbitrary: n) simp_all

lemma decode_enc: "decode_size (enc k n) = n mod 256 ^ k"
proof (induction k arbitrary: n)
  case 0 show ?case by simp
next
  case (Suc k)
  have "decode_size (enc (Suc k) n) = n mod 256 + 256 * ((n div 256) mod 256 ^ k)"
    by (simp add: Suc)
  also have "\<dots> = n mod (256 * 256 ^ k)" by (simp add: mod_mult2_eq)
  finally show ?case by simp
qed

lemma decode_encode_size: "n < 2 ^ 64 \<Longrightarrow> decode_size (encode_size n) = n"
  by (simp add: encode_size_def decode_enc)

lemma length_encode_size [simp]: "length (encode_size n) = 8"
  by (simp add: encode_size_def)

lemma init_sees:
  "\<exists>s. init pagesz (unset u) bs = Inr s \<and>
     sees s \<lparr>v_block_size = (if bs = - 1 then pagesz else to_size bs),
             v_segs = [(Some (map (u 0) [0..<(if bs = - 1 then pagesz else to_size bs)]), 0)],
             v_pres = [], v_frees = [], v_rpos = 0, v_wpos_private = 0,
             v_one_block_left = True, v_uninit = u, v_allocs = 1\<rparr>"
proof -
  let ?B = "if bs = - 1 then pagesz else to_size bs"
  let ?s1 = "(unset u)\<lparr>rpos := 0, wpos_private := 0, one_block_left := True, block_size := ?B\<rparr>"
  have h: "q_holds (buf (unset u)) []" by (simp add: unset_def q_holds_init)
  from brep_emplace[OF h, of "(Some (new_block ?s1), 0)"] obtain b a where
    b: "q_emplace (buf (unset u)) (Some (new_block ?s1), 0) = Inr b" "back_ref b = Inr a"
       "brep b (Some a) ([] @ [(Some (new_block ?s1), 0)])" by blast
  have n: "new_block ?s1 = map (u 0) [0..<?B]" by (simp add: new_block_def unset_def)
  have "init pagesz (unset u) bs = Inr (?s1\<lparr>buf := b, allocs := Suc (allocs ?s1), wpos := Some a\<rparr>)"
    using b(1,2) by (simp add: init_def Let_def)
  moreover have "sees (?s1\<lparr>buf := b, allocs := Suc (allocs ?s1), wpos := Some a\<rparr>)
     \<lparr>v_block_size = ?B, v_segs = [(Some (map (u 0) [0..<?B]), 0)],
             v_pres = [], v_frees = [], v_rpos = 0, v_wpos_private = 0,
             v_one_block_left = True, v_uninit = u, v_allocs = 1\<rparr>"
    using b(3) n by (simp add: sees_def rep_def) (simp add: unset_def q_holds_init)
  ultimately show ?thesis by blast
qed

lemma v_write_range_unsplit:
  assumes "bytes \<noteq> []"
    "v_wpos_private v + length bytes \<le> v_block_size v \<or>
     (v_wpos_private v = v_block_size v \<and> length bytes \<le> v_block_size v)"
  shows "v_write_range v bytes n = v_write_cont_range v bytes n"
proof (cases "v_wpos_private v = v_block_size v")
  case True
  then have k: "length bytes \<le> v_block_size v" "0 < v_block_size v"
    using assms by (cases bytes; auto)+
  show ?thesis unfolding v_write_range_def v_write_cont_range_def
    apply (subst v_write_loop.simps)
    using True k assms(1)
    by (cases "v_copy_to_back (v_add_block v) bytes")
       (simp_all add: v_add_block_if_needed_def v_add_block_if_needed_cont_def Let_def
          v_add_block_def min_def)
next
  case False
  then have k: "v_wpos_private v + length bytes \<le> v_block_size v" using assms by auto
  then have m: "min (length bytes) (v_block_size v - v_wpos_private v) = length bytes"
    "\<not> v_block_size v - v_wpos_private v < length bytes" by simp_all
  show ?thesis unfolding v_write_range_def v_write_cont_range_def
    apply (subst v_write_loop.simps)
    using False k m assms(1)
    by (cases "v_copy_to_back v bytes")
       (simp_all add: v_add_block_if_needed_def v_add_block_if_needed_cont_def Let_def)
qed

lemma v_read_T_here:
  assumes "fst (hd (v_segs v)) = Some blk" "v_rpos v + k \<le> length blk" "length blk < 2 ^ 64"
    "(v_one_block_left v \<and> length (v_segs v) = 1) \<or>
     \<not> sz_sub (snd (hd (v_segs v))) (v_rpos v) < k"
  shows "v_read_T v k = Inr (take k (drop (v_rpos v) blk), v\<lparr>v_rpos := v_rpos v + k\<rparr>)"
proof -
  have p: "v_pop_block_if_needed v k = Inr v"
    using assms(4) by (auto simp: v_pop_block_if_needed_def)
  have a: "sz_add (v_rpos v) k = v_rpos v + k" using assms(2,3) by (intro sz_add_small) simp
  show ?thesis using assms(1,2) by (simp add: v_read_T_def p v_front_slice_def a)
qed

lemma v_read_T_next:
  assumes "v_segs v = h # (Some blk, e) # rest" "sz_sub (snd h) (v_rpos v) < k"
    "k \<le> length blk" "length blk < 2 ^ 64"
  shows "v_read_T v k = Inr (take k blk, v\<lparr>v_segs := (Some blk, e) # rest,
           v_pres := v_pres v @ [h], v_rpos := k, v_one_block_left := (rest = [])\<rparr>)"
proof -
  have p: "v_pop_block_if_needed v k = Inr (v\<lparr>v_segs := (Some blk, e) # rest,
           v_pres := v_pres v @ [h], v_rpos := 0, v_one_block_left := (rest = [])\<rparr>)"
    using assms(1,2) by (simp add: v_pop_block_if_needed_def v_pop_block_def)
  have a: "sz_add 0 k = k" using assms(3,4) by (simp add: sz_add_def)
  show ?thesis using assms(3) by (simp add: v_read_T_def p v_front_slice_def a)
qed

lemma bindF_assoc: "bindF (bindF m f) g = bindF m (\<lambda>x. bindF (f x) g)"
  by (cases m) simp_all

lemma v_get_string_alt:
  "v_get_string v = bindF (v_read_T v 8) (\<lambda>(rp, v1).
     bindF (v_read_T v1 (decode_size rp)) (\<lambda>(str, v2).
     Inr (str, v_clear_preserved v2 (sz_add 8 (decode_size rp)))))"
  unfolding v_get_string_def
  by (rule bindF_cong[OF refl]) (auto simp: v_read_T_def Let_def bindF_assoc)

lemma overlay_before:
  "at' + k' \<le> at \<Longrightarrow> at + length bytes \<le> length blk \<Longrightarrow>
   take k' (drop at' (overlay blk at bytes)) = take k' (drop at' blk)"
  by (simp add: overlay_def take_drop)

lemma v_wf_segs_upd:
  assumes "v_wf v" "\<forall>seg\<in>set new. \<exists>blk. fst seg = Some blk \<and> length blk = v_block_size v"
    "new \<noteq> [] \<or> butlast (v_segs v) \<noteq> []" "w' \<le> v_block_size v" "fr = v_frees v \<or> fr = tl (v_frees v)"
  shows "v_wf (v\<lparr>v_segs := butlast (v_segs v) @ new, v_frees := fr, v_wpos_private := w',
                 v_allocs := a\<rparr>)"
proof -
  have "set (butlast (v_segs v)) \<subseteq> set (v_segs v)" by (auto dest: in_set_butlastD)
  moreover have "set fr \<subseteq> set (v_frees v)" using assms(5) by (cases "v_frees v") auto
  ultimately show ?thesis using assms(1-4) by (auto simp: v_wf_def)
qed

lemma v_write_range_lands:
  assumes "v_wf v" "bytes \<noteq> []" "fst (last (v_segs v)) = Some tb"
    "v_wpos_private v + length bytes \<le> v_block_size v \<or>
     (v_wpos_private v = v_block_size v \<and> length bytes \<le> v_block_size v)"
  shows "\<exists>v'. v_write_range v bytes n = Inr v' \<and> v_wf v' \<and> v_rpos v' = v_rpos v \<and>
     v_one_block_left v' = v_one_block_left v \<and> v_block_size v' = v_block_size v \<and>
     (if v_wpos_private v + length bytes \<le> v_block_size v then
        v_wpos_private v' = v_wpos_private v + length bytes \<and>
        (\<exists>e'. v_segs v' = butlast (v_segs v) @ [(Some (overlay tb (v_wpos_private v) bytes), e')])
      else
        v_wpos_private v' = length bytes \<and>
        (\<exists>e' nb. length nb = v_block_size v \<and>
           v_segs v' = butlast (v_segs v) @
             [(Some tb, v_wpos_private v), (Some (overlay nb 0 bytes), e')]))"
proof -
  let ?w = "v_wpos_private v" and ?k = "length bytes" and ?B = "v_block_size v"
  have kB: "?k \<le> ?B" using assms(4) by auto
  have tb: "length tb = ?B" using v_wf_tail[OF assms(1)] assms(3) by auto
  have nb: "length (v_next_block v) = ?B" by (rule v_next_block_length[OF assms(1)])
  have wB: "?w \<le> ?B" using assms(1) by (simp add: v_wf_def)
  note e = v_write_range_unsplit[OF assms(2,4), of n]
    v_write_cont_range_wf[OF assms(1,2) kB assms(3), of n]
  show ?thesis
  proof (cases "?w + ?k \<le> ?B")
    case True
    then have fits: "?k \<le> ?B - ?w" by simp
    have wf': "v_wf (v\<lparr>v_segs := butlast (v_segs v) @ [(Some (overlay tb ?w bytes), e')],
        v_frees := v_frees v, v_wpos_private := ?w + ?k, v_allocs := v_allocs v\<rparr>)" for e'
      using True tb by (intro v_wf_segs_upd[OF assms(1)]) simp_all
    show ?thesis unfolding e using True fits wf' by (simp add: Let_def)
  next
    case False
    then have nf: "\<not> ?k \<le> ?B - ?w" using wB by simp
    have wf': "v_wf (v\<lparr>v_segs := butlast (v_segs v) @
          [(Some tb, ?w), (Some (overlay (v_next_block v) 0 bytes), e')],
        v_frees := tl (v_frees v), v_wpos_private := 0 + ?k, v_allocs := a\<rparr>)" for e' a
      using kB tb nb by (intro v_wf_segs_upd[OF assms(1)]) simp_all
    show ?thesis unfolding e using False nf wf' nb
      by (simp add: Let_def) blast
  qed
qed

lemma v_get_string_here_here:
  assumes "v_segs v = [(Some blk, e)]" "v_one_block_left v" "length blk < 2 ^ 64"
    "v_rpos v + 8 + decode_size (take 8 (drop (v_rpos v) blk)) \<le> length blk"
  shows "\<exists>v'. v_get_string v = Inr (take (decode_size (take 8 (drop (v_rpos v) blk)))
                                      (drop (v_rpos v + 8) blk), v')"
proof -
  let ?r = "v_rpos v" and ?L = "decode_size (take 8 (drop (v_rpos v) blk))"
  have 1: "v_read_T v 8 = Inr (take 8 (drop ?r blk), v\<lparr>v_rpos := ?r + 8\<rparr>)"
    using assms by (intro v_read_T_here) simp_all
  have 2: "v_read_T (v\<lparr>v_rpos := ?r + 8\<rparr>) ?L =
      Inr (take ?L (drop (?r + 8) blk), v\<lparr>v_rpos := ?r + 8 + ?L\<rparr>)"
    using v_read_T_here[of "v\<lparr>v_rpos := ?r + 8\<rparr>" blk ?L] assms by simp
  show ?thesis by (simp add: v_get_string_alt 1 2)
qed

lemma v_get_string_here_next:
  assumes "v_segs v = [(Some b1, v_rpos v + 8), (Some b2, e2)]" "length b1 < 2 ^ 64"
    "v_rpos v + 8 \<le> length b1" "0 < decode_size (take 8 (drop (v_rpos v) b1))"
    "decode_size (take 8 (drop (v_rpos v) b1)) \<le> length b2" "length b2 < 2 ^ 64"
  shows "\<exists>v'. v_get_string v = Inr (take (decode_size (take 8 (drop (v_rpos v) b1))) b2, v')"
proof -
  let ?r = "v_rpos v" and ?L = "decode_size (take 8 (drop (v_rpos v) b1))"
  have 1: "v_read_T v 8 = Inr (take 8 (drop ?r b1), v\<lparr>v_rpos := ?r + 8\<rparr>)"
    using assms by (intro v_read_T_here) simp_all
  have 2: "\<exists>v'. v_read_T (v\<lparr>v_rpos := ?r + 8\<rparr>) ?L = Inr (take ?L b2, v')"
    using v_read_T_next[of "v\<lparr>v_rpos := ?r + 8\<rparr>" "(Some b1, ?r + 8)" b2 e2 "[]" ?L] assms
    by simp
  show ?thesis using 2 by (auto simp: v_get_string_alt 1)
qed

lemma v_get_string_next_here:
  assumes "v_segs v = [(b1, v_rpos v), (Some b2, e2)]" "length b2 < 2 ^ 64"
    "8 + decode_size (take 8 b2) \<le> length b2"
  shows "\<exists>v'. v_get_string v = Inr (take (decode_size (take 8 b2)) (drop 8 b2), v')"
proof -
  let ?L = "decode_size (take 8 b2)"
  define v1 where "v1 = v\<lparr>v_segs := [(Some b2, e2)], v_pres := v_pres v @ [(b1, v_rpos v)],
           v_rpos := 8, v_one_block_left := True\<rparr>"
  have 1: "v_read_T v 8 = Inr (take 8 b2, v1)"
    using v_read_T_next[of v "(b1, v_rpos v)" b2 e2 "[]" 8] assms by (simp add: v1_def)
  have 2: "v_read_T v1 ?L = Inr (take ?L (drop (v_rpos v1) b2), v1\<lparr>v_rpos := v_rpos v1 + ?L\<rparr>)"
    using assms by (intro v_read_T_here) (simp_all add: v1_def)
  show ?thesis using 2 by (simp add: v_get_string_alt 1) (simp add: v1_def)
qed

lemma v_get_string_next_next:
  assumes "v_segs v = [(b1, v_rpos v), (Some b2, 8), (Some b3, e3)]" "length b2 < 2 ^ 64"
    "8 \<le> length b2" "0 < decode_size (take 8 b2)" "decode_size (take 8 b2) \<le> length b3"
    "length b3 < 2 ^ 64"
  shows "\<exists>v'. v_get_string v = Inr (take (decode_size (take 8 b2)) b3, v')"
proof -
  let ?L = "decode_size (take 8 b2)"
  define v1 where "v1 = v\<lparr>v_segs := [(Some b2, 8), (Some b3, e3)],
           v_pres := v_pres v @ [(b1, v_rpos v)], v_rpos := 8, v_one_block_left := False\<rparr>"
  have 1: "v_read_T v 8 = Inr (take 8 b2, v1)"
    using v_read_T_next[of v "(b1, v_rpos v)" b2 8 "[(Some b3, e3)]" 8] assms by (simp add: v1_def)
  have 2: "\<exists>v'. v_read_T v1 ?L = Inr (take ?L b3, v')"
    using v_read_T_next[of v1 "(Some b2, 8)" b3 e3 "[]" ?L] assms by (simp add: v1_def)
  show ?thesis using 2 by (auto simp: v_get_string_alt 1)
qed

lemma v_write_range_Nil:
  "v_write_range v [] n = Inr (if n then v_notify v else v)"
  by (simp add: v_write_range_def)

lemma v_write_string_get_string:
  assumes wf: "v_wf v" and sg: "length (v_segs v) = 1" and obl: "v_one_block_left v"
    and dr: "v_rpos v = v_wpos_private v" and L: "length str < 2 ^ 64"
    and f1: "v_wpos_private v + 8 \<le> v_block_size v \<or>
             (v_wpos_private v = v_block_size v \<and> 8 \<le> v_block_size v)"
    and f2: "str = [] \<or>
             (if v_wpos_private v + 8 \<le> v_block_size v then v_wpos_private v + 8 else 8)
               + length str \<le> v_block_size v \<or>
             ((if v_wpos_private v + 8 \<le> v_block_size v then v_wpos_private v + 8 else 8)
               = v_block_size v \<and> length str \<le> v_block_size v)"
  shows "\<exists>v1 v2. v_write_string v str n = Inr v1 \<and> v_get_string v1 = Inr (str, v2)"
proof -
  let ?B = "v_block_size v" and ?w = "v_wpos_private v" and ?L = "length str"
  let ?p = "encode_size (length str)"
  obtain seg where sg1: "v_segs v = [seg]" using sg by (cases "v_segs v") auto
  from v_wf_tail[OF wf] sg1 obtain tb where tb: "fst seg = Some tb" "length tb = ?B" by auto
  have B: "?B < 2 ^ 64" using wf by (simp add: v_wf_def)
  have dec: "decode_size ?p = ?L" by (rule decode_encode_size[OF L])
  have pne: "?p \<noteq> []" using length_encode_size[of ?L] by (cases ?p) simp_all
  have lt: "fst (last (v_segs v)) = Some tb" using sg1 tb by simp
  have f1': "?w + length ?p \<le> ?B \<or> (?w = ?B \<and> length ?p \<le> ?B)" using f1 by simp
  from v_write_range_lands[OF wf pne lt f1', of False] obtain v1 where
    v1: "v_write_range v ?p False = Inr v1" "v_wf v1" "v_rpos v1 = ?w" "v_one_block_left v1"
        "v_block_size v1 = ?B"
    and sh1: "if ?w + 8 \<le> ?B then v_wpos_private v1 = ?w + 8 \<and>
                (\<exists>e'. v_segs v1 = [(Some (overlay tb ?w ?p), e')])
              else v_wpos_private v1 = 8 \<and>
                (\<exists>e' nb. length nb = ?B \<and>
                   v_segs v1 = [(Some tb, ?w), (Some (overlay nb 0 ?p), e')])"
    using sg1 dr obl by (cases "?w + 8 \<le> ?B") auto
  have ws: "v_write_string v str n = v_write_range v1 str n"
    by (simp add: v_write_string_def v1(1))
  have nt: "v_segs (if n then v_notify v1 else v1) =
              butlast (v_segs v1) @ [(fst (last (v_segs v1)), if n then v_wpos_private v1
                                      else snd (last (v_segs v1)))]"
    using v1(2) by (simp add: v_notify_def v_wf_def)
  have nr: "v_rpos (if n then v_notify v1 else v1) = ?w"
    "v_one_block_left (if n then v_notify v1 else v1)"
    using v1(3,4) by (simp_all add: v_notify_def)
  show ?thesis
  proof (cases "?w + 8 \<le> ?B")
    case A: True
    let ?tb1 = "overlay tb ?w ?p"
    from sh1 A obtain e1 where s1: "v_segs v1 = [(Some ?tb1, e1)]"
      and w1: "v_wpos_private v1 = ?w + 8" by auto
    have l1: "length ?tb1 = ?B" using A tb(2) by simp
    have pre: "take 8 (drop ?w ?tb1) = ?p"
      using overlay_slice[of ?w ?p tb] A tb(2) by simp
    show ?thesis
    proof (cases "str = []")
      case True
      let ?v2 = "if n then v_notify v1 else v1"
      have w2: "v_write_string v str n = Inr ?v2" unfolding ws by (simp add: True v_write_range_Nil)
      obtain e2 where s2: "v_segs ?v2 = [(Some ?tb1, e2)]" using nt s1 by simp
      from v_get_string_here_here[of ?v2 ?tb1 e2] s2 nr l1 B A pre dec True
      obtain v3 where "v_get_string ?v2 = Inr (str, v3)" by auto
      then show ?thesis using w2 by blast
    next
      case ne: False
      have lt1: "fst (last (v_segs v1)) = Some ?tb1" using s1 by simp
      show ?thesis
      proof (cases "?w + 8 + ?L \<le> ?B")
        case True
        then have c: "v_wpos_private v1 + ?L \<le> v_block_size v1 \<or>
            (v_wpos_private v1 = v_block_size v1 \<and> ?L \<le> v_block_size v1)"
          using w1 v1(5) by simp
        from v_write_range_lands[OF v1(2) ne lt1 c, of n] True w1 v1(3,4,5) s1
        obtain v2 e2 where v2: "v_write_range v1 str n = Inr v2" "v_rpos v2 = ?w"
          "v_one_block_left v2" "v_segs v2 = [(Some (overlay ?tb1 (?w + 8) str), e2)]"
          by auto
        let ?b = "overlay ?tb1 (?w + 8) str"
        have lb: "length ?b = ?B" using True l1 by simp
        have p2: "take 8 (drop ?w ?b) = ?p"
          using overlay_before[of ?w 8 "?w + 8" str ?tb1] True l1 pre by simp
        have p3: "take ?L (drop (?w + 8) ?b) = str"
          using overlay_slice[of "?w + 8" str ?tb1] True l1 by simp
        from v_get_string_here_here[of v2 ?b e2] v2 lb B True p2 p3 dec
        obtain v3 where "v_get_string v2 = Inr (str, v3)" by auto
        then show ?thesis using ws v2(1) by auto
      next
        case False
        then have e: "?w + 8 = ?B" "?L \<le> ?B" using f2 A ne by auto
        then have c: "v_wpos_private v1 + ?L \<le> v_block_size v1 \<or>
            (v_wpos_private v1 = v_block_size v1 \<and> ?L \<le> v_block_size v1)"
          using w1 v1(5) by simp
        have nf: "\<not> v_wpos_private v1 + ?L \<le> v_block_size v1" using False w1 v1(5) by simp
        from v_write_range_lands[OF v1(2) ne lt1 c, of n] nf w1 v1(3,4,5) s1
        obtain v2 e2 nb where v2: "v_write_range v1 str n = Inr v2" "v_rpos v2 = ?w"
          "v_one_block_left v2" "length nb = ?B"
          "v_segs v2 = [(Some ?tb1, ?w + 8), (Some (overlay nb 0 str), e2)]"
          by auto
        let ?b = "overlay nb 0 str"
        have lb: "length ?b = ?B" using e v2(4) by simp
        have p3: "take ?L ?b = str" using overlay_slice[of 0 str nb] e v2(4) by simp
        have pos: "0 < ?L" using ne by simp
        from v_get_string_here_next[of v2 ?tb1 ?b e2] v2 lb l1 B A pre p3 dec e pos
        obtain v3 where "v_get_string v2 = Inr (str, v3)" by auto
        then show ?thesis using ws v2(1) by auto
      qed
    qed
  next
    case Bc: False
    then have wB: "?w = ?B" "8 \<le> ?B" using f1 by auto
    from sh1 Bc obtain e1 nb where s1: "v_segs v1 = [(Some tb, ?w), (Some (overlay nb 0 ?p), e1)]"
      and nbl: "length nb = ?B" and w1: "v_wpos_private v1 = 8" by auto
    let ?nb1 = "overlay nb 0 ?p"
    have l1: "length ?nb1 = ?B" using wB nbl by simp
    have pre: "take 8 ?nb1 = ?p" using overlay_slice[of 0 ?p nb] wB nbl by simp
    show ?thesis
    proof (cases "str = []")
      case True
      let ?v2 = "if n then v_notify v1 else v1"
      have w2: "v_write_string v str n = Inr ?v2" unfolding ws by (simp add: True v_write_range_Nil)
      obtain e2 where s2: "v_segs ?v2 = [(Some tb, ?w), (Some ?nb1, e2)]" using nt s1 by simp
      from v_get_string_next_here[of ?v2 "Some tb" ?nb1 e2] s2 nr l1 B wB pre dec True
      obtain v3 where "v_get_string ?v2 = Inr (str, v3)" by auto
      then show ?thesis using w2 by blast
    next
      case ne: False
      have lt1: "fst (last (v_segs v1)) = Some ?nb1" using s1 by simp
      show ?thesis
      proof (cases "8 + ?L \<le> ?B")
        case True
        then have c: "v_wpos_private v1 + ?L \<le> v_block_size v1 \<or>
            (v_wpos_private v1 = v_block_size v1 \<and> ?L \<le> v_block_size v1)"
          using w1 v1(5) by simp
        from v_write_range_lands[OF v1(2) ne lt1 c, of n] True w1 v1(3,4,5) s1
        obtain v2 e2 where v2: "v_write_range v1 str n = Inr v2" "v_rpos v2 = ?w"
          "v_one_block_left v2" "v_segs v2 = [(Some tb, ?w), (Some (overlay ?nb1 8 str), e2)]"
          by auto
        let ?b = "overlay ?nb1 8 str"
        have lb: "length ?b = ?B" using True l1 by simp
        have p2: "take 8 ?b = ?p"
          using overlay_before[of 0 8 8 str ?nb1] True l1 pre by simp
        have p3: "take ?L (drop 8 ?b) = str"
          using overlay_slice[of 8 str ?nb1] True l1 by simp
        from v_get_string_next_here[of v2 "Some tb" ?b e2] v2 lb B True p2 p3 dec
        obtain v3 where "v_get_string v2 = Inr (str, v3)" by auto
        then show ?thesis using ws v2(1) by auto
      next
        case False
        then have e: "8 = ?B" "?L \<le> ?B" using f2 Bc ne by auto
        then have c: "v_wpos_private v1 + ?L \<le> v_block_size v1 \<or>
            (v_wpos_private v1 = v_block_size v1 \<and> ?L \<le> v_block_size v1)"
          using w1 v1(5) by simp
        have nf: "\<not> v_wpos_private v1 + ?L \<le> v_block_size v1" using False w1 v1(5) by simp
        from v_write_range_lands[OF v1(2) ne lt1 c, of n] nf w1 v1(3,4,5) s1
        obtain v2 e2 nb2 where v2: "v_write_range v1 str n = Inr v2" "v_rpos v2 = ?w"
          "v_one_block_left v2" "length nb2 = ?B"
          "v_segs v2 = [(Some tb, ?w), (Some ?nb1, 8), (Some (overlay nb2 0 str), e2)]"
          by auto
        let ?b = "overlay nb2 0 str"
        have lb: "length ?b = ?B" using e v2(4) by simp
        have p3: "take ?L ?b = str" using overlay_slice[of 0 str nb2] e v2(4) by simp
        have pos: "0 < ?L" using ne by simp
        from v_get_string_next_next[of v2 "Some tb" ?nb1 ?b e2] v2 lb l1 B pre p3 dec e pos
        obtain v3 where "v_get_string v2 = Inr (str, v3)" by auto
        then show ?thesis using ws v2(1) by auto
      qed
    qed
  qed
qed

section \<open>The sequential buffer simulates the SPSC buffer\<close>

lemma lift_bb_simps [simp]: "lift_bb (Inl e) = Inl e" "lift_bb (Inr v) = Inr (bb_of v)"
  by (simp_all add: lift_bb_def)

lemma lift_bb_bind: "lift_bb (bindF m f) = bindF m (\<lambda>x. lift_bb (f x))"
  by (cases m) simp_all

lemma bb_of_sel [simp]:
  "bb_block_size (bb_of v) = v_block_size v" "bb_rpos (bb_of v) = v_rpos v"
  "bb_wpos (bb_of v) = v_wpos_private v" "bb_free_list (bb_of v) = v_frees v"
  "bb_allocs (bb_of v) = v_allocs v" "bb_uninit (bb_of v) = v_uninit v"
  "bb_preserved_list (bb_of v) = v_pres v"
  "bb_buf (bb_of v) = butlast (v_segs v) @ [(fst (last (v_segs v)), npos)]"
  by (simp_all add: bb_of_def)

lemma bb_of_upd [simp]:
  "(bb_of v)\<lparr>bb_wpos := w\<rparr> = bb_of (v\<lparr>v_wpos_private := w\<rparr>)"
  "(bb_of v)\<lparr>bb_rpos := r\<rparr> = bb_of (v\<lparr>v_rpos := r\<rparr>)"
  by (simp_all add: bb_of_def)

lemma bb_of_flag [simp]: "bb_of (v\<lparr>v_one_block_left := f\<rparr>) = bb_of v"
  by (simp add: bb_of_def)

lemma bb_new_block_of [simp]: "bb_new_block (bb_of v) = v_new_block v"
  by (simp add: bb_new_block_def v_new_block_def)

lemma sq_back_snoc [simp]: "sq_back (xs @ [x]) = Inr x"
  by (simp add: sq_back_def)

lemma v_ok_wf: "v_ok v \<Longrightarrow> v_wf v"
  by (simp add: v_ok_def)

lemma bb_add_block_of:
  assumes "v_ok v"
  shows "bb_add_block (bb_of v) = Inr (bb_of (v_add_block v))"
proof (cases "v_frees v")
  case Nil
  then show ?thesis
    by (simp add: bb_add_block_def v_add_block_def bb_of_def Let_def bb_new_block_def
        v_new_block_def butlast_append)
next
  case (Cons f fs)
  then show ?thesis
    by (simp add: bb_add_block_def v_add_block_def bb_of_def Let_def sq_front_def sq_pop_def
        butlast_append)
qed

lemma v_ok_add_block:
  assumes "v_ok v"
  shows "v_ok (v_add_block v)"
proof -
  note wf = v_ok_wf[OF assms]
  have w: "v_wpos_private v \<le> v_block_size v" using wf by (simp add: v_wf_def)
  from v_wf_tail[OF wf] obtain tb where tb: "fst (last (v_segs v)) = Some tb"
    "length tb = v_block_size v" by blast
  have n: "(if v_frees v = [] then Some (v_new_block v) else hd (v_frees v)) =
       Some (v_next_block v)" by (rule v_next_block_Some[OF wf])
  have b: "set (butlast (v_segs v)) \<subseteq> set (v_segs v)" by (auto dest: in_set_butlastD)
  have f: "set (tl (v_frees v)) \<subseteq> set (v_frees v)" by (cases "v_frees v") auto
  have "v_wf (v_add_block v)"
    using wf tb b f v_next_block_length[OF wf] unfolding v_add_block_def n
    by (auto simp: v_wf_def)
  moreover have "\<forall>seg\<in>set (butlast (v_segs (v_add_block v))). snd seg \<le> v_block_size v"
    using assms w unfolding v_add_block_def n by (auto simp: v_ok_def butlast_append)
  ultimately show ?thesis using assms by (simp add: v_ok_def) (simp add: v_add_block_def)
qed

lemma bb_add_block_if_needed_of:
  "v_ok v \<Longrightarrow> bb_add_block_if_needed (bb_of v) = Inr (bb_of (v_add_block_if_needed v))"
  by (simp add: bb_add_block_if_needed_def v_add_block_if_needed_def bb_add_block_of)

lemma v_ok_add_block_if_needed: "v_ok v \<Longrightarrow> v_ok (v_add_block_if_needed v)"
  by (simp add: v_add_block_if_needed_def v_ok_add_block)

lemma bb_add_block_if_needed_cont_of:
  "v_ok v \<Longrightarrow>
   bb_add_block_if_needed_cont (bb_of v) k = Inr (bb_of (v_add_block_if_needed_cont v k))"
  by (simp add: bb_add_block_if_needed_cont_def v_add_block_if_needed_cont_def bb_add_block_of)

lemma v_ok_add_block_if_needed_cont: "v_ok v \<Longrightarrow> v_ok (v_add_block_if_needed_cont v k)"
  by (simp add: v_add_block_if_needed_cont_def v_ok_add_block)

lemma bb_copy_to_back_of:
  "v_segs v \<noteq> [] \<Longrightarrow> bb_copy_to_back (bb_of v) bytes = lift_bb (v_copy_to_back v bytes)"
  by (simp add: bb_copy_to_back_def v_copy_to_back_def bb_of_def split: option.splits)

lemma v_ok_copy_to_back:
  assumes "v_ok v" "v_copy_to_back v bytes = Inr v'" "bytes \<noteq> []"
  shows "v_wpos_private v + length bytes \<le> v_block_size v \<and>
         v_ok (v'\<lparr>v_wpos_private := v_wpos_private v + length bytes\<rparr>)"
proof -
  note wf = v_ok_wf[OF assms(1)]
  from v_wf_tail[OF wf] obtain tb where tb: "fst (last (v_segs v)) = Some tb"
    "length tb = v_block_size v" by blast
  have le: "v_wpos_private v + length bytes \<le> v_block_size v"
    and v': "v' = v\<lparr>v_segs := butlast (v_segs v) @
       [(Some (take (v_wpos_private v) tb @ bytes @ drop (v_wpos_private v + length bytes) tb),
         snd (last (v_segs v)))]\<rparr>"
    using assms(2,3) tb by (auto simp: v_copy_to_back_def split: if_splits)
  have b: "set (butlast (v_segs v)) \<subseteq> set (v_segs v)" by (auto dest: in_set_butlastD)
  have "v_wf (v'\<lparr>v_wpos_private := v_wpos_private v + length bytes\<rparr>)"
    using wf b le tb unfolding v' by (auto simp: v_wf_def)
  then show ?thesis using assms(1) le unfolding v' by (auto simp: v_ok_def)
qed

lemma v_ok_le: "v_ok v \<Longrightarrow> v_wpos_private v \<le> v_block_size v \<and> v_block_size v < 2 ^ 64"
  by (simp add: v_ok_def v_wf_def)

lemma bb_write_loop_of:
  "v_ok v \<Longrightarrow> bb_write_loop (bb_of v) bytes = lift_bb (v_write_loop v bytes) \<and>
     (\<forall>v'. v_write_loop v bytes = Inr v' \<longrightarrow> v_ok v')"
proof (induction v bytes rule: v_write_loop.induct)
  case (1 v bytes)
  show ?case
  proof (cases "bytes = []")
    case True
    then show ?thesis using "1.prems"
      by (subst bb_write_loop.simps, subst (1 2) v_write_loop.simps) simp
  next
    case False
    let ?v1 = "v_add_block_if_needed v"
    define k where "k = min (length bytes) (sz_sub (v_block_size ?v1) (v_wpos_private ?v1))"
    have ok1: "v_ok ?v1" by (rule v_ok_add_block_if_needed[OF "1.prems"])
    have ne: "v_segs ?v1 \<noteq> []" using ok1 by (simp add: v_ok_def v_wf_def)
    note le = v_ok_le[OF ok1]
    have L: "bb_write_loop (bb_of v) bytes =
        bindF (lift_bb (v_copy_to_back ?v1 (take k bytes))) (\<lambda>t2.
          if k = 0 then Inl Diverges
          else bb_write_loop (t2\<lparr>bb_wpos := sz_add (bb_wpos t2) k\<rparr>) (drop k bytes))"
      unfolding k_def
      by (subst bb_write_loop.simps)
         (simp add: False bb_add_block_if_needed_of[OF "1.prems"] Let_def
            bb_copy_to_back_of[OF ne] del: sz_sub_le cong: if_cong)
    have R: "v_write_loop v bytes =
        bindF (v_copy_to_back ?v1 (take k bytes)) (\<lambda>v2.
          if k = 0 then Inl Diverges
          else v_write_loop (v2\<lparr>v_wpos_private := sz_add (v_wpos_private v2) k\<rparr>)
                 (drop k bytes))"
      unfolding k_def
      by (subst v_write_loop.simps) (simp add: False Let_def del: sz_sub_le)
    show ?thesis
    proof (cases "v_copy_to_back ?v1 (take k bytes)")
      case (Inl e)
      then show ?thesis unfolding L R by simp
    next
      case (Inr v2)
      show ?thesis
      proof (cases "k = 0")
        case True
        then show ?thesis unfolding L R Inr by simp
      next
        case kn: False
        have kl: "k \<le> length bytes" by (simp add: k_def)
        then have tk: "take k bytes \<noteq> []" "length (take k bytes) = k" using False kn by auto
        from v_ok_copy_to_back[OF ok1 Inr tk(1), unfolded tk(2)]
        have c: "v_wpos_private ?v1 + k \<le> v_block_size ?v1"
          "v_ok (v2\<lparr>v_wpos_private := v_wpos_private ?v1 + k\<rparr>)" by blast+
        have w2: "v_wpos_private v2 = v_wpos_private ?v1"
          using Inr by (auto simp: v_copy_to_back_def split: if_splits option.splits)
        have a: "sz_add (v_wpos_private v2) k = v_wpos_private ?v1 + k"
          unfolding w2 using c(1) le by (intro sz_add_small) simp
        let ?v3 = "v2\<lparr>v_wpos_private := sz_add (v_wpos_private v2) k\<rparr>"
        have ok3: "v_ok ?v3" using c(2) a by simp
        have kn': "min (length bytes) (sz_sub (v_block_size ?v1) (v_wpos_private ?v1)) \<noteq> 0"
          using kn by (simp add: k_def)
        note ih = "1.IH"[OF False refl refl Inr[unfolded k_def] kn' ok3[unfolded k_def],
            folded k_def]
        show ?thesis unfolding L R Inr using kn ih by simp
      qed
    qed
  qed
qed

lemma v_ok_segs: "v_ok v \<Longrightarrow> v_segs v \<noteq> []"
  by (simp add: v_ok_def v_wf_def)

lemma bb_of_notify [simp]: "v_segs v \<noteq> [] \<Longrightarrow> bb_of (v_notify v) = bb_of v"
  by (simp add: bb_of_def v_notify_def)

lemma v_ok_notify: "v_ok v \<Longrightarrow> v_ok (v_notify v) \<and> v_published (v_notify v)"
proof -
  assume a: "v_ok v"
  from v_wf_tail[OF v_ok_wf[OF a]] obtain tb where tb: "fst (last (v_segs v)) = Some tb"
    "length tb = v_block_size v" by blast
  have b: "set (butlast (v_segs v)) \<subseteq> set (v_segs v)" by (auto dest: in_set_butlastD)
  show ?thesis using a tb b
    by (auto simp: v_ok_def v_wf_def v_notify_def v_published_def)
qed

lemma bb_write_range_of:
  assumes "v_ok v"
  shows "bb_write_range (bb_of v) bytes = lift_bb (v_write_range v bytes n) \<and>
     (\<forall>v'. v_write_range v bytes n = Inr v' \<longrightarrow> v_ok v' \<and> (n \<longrightarrow> v_published v'))"
proof (cases "v_write_loop v bytes")
  case (Inl e)
  then show ?thesis using bb_write_loop_of[OF assms, of bytes]
    by (simp add: bb_write_range_def v_write_range_def)
next
  case (Inr v1)
  then have ok: "v_ok v1" using bb_write_loop_of[OF assms, of bytes] by simp
  show ?thesis using bb_write_loop_of[OF assms, of bytes] Inr ok v_ok_notify[OF ok] v_ok_segs[OF ok]
    by (simp add: bb_write_range_def v_write_range_def)
qed

lemma bb_write_string_of:
  assumes "v_ok v"
  shows "bb_write_string (bb_of v) str = lift_bb (v_write_string v str True) \<and>
     (\<forall>v'. v_write_string v str True = Inr v' \<longrightarrow> v_ok v' \<and> v_published v')"
proof (cases "v_write_range v (encode_size (length str)) False")
  case (Inl e)
  then show ?thesis using bb_write_range_of[OF assms, of "encode_size (length str)" False]
    by (simp add: bb_write_string_def bb_write_T_def v_write_string_def)
next
  case (Inr v1)
  then have ok: "v_ok v1"
    using bb_write_range_of[OF assms, of "encode_size (length str)" False] by simp
  show ?thesis
    using bb_write_range_of[OF assms, of "encode_size (length str)" False] Inr
      bb_write_range_of[OF ok, of str True]
    by (simp add: bb_write_string_def bb_write_T_def v_write_string_def)
qed

lemma bb_write_cont_range_of:
  assumes "v_ok v"
  shows "(case v_write_cont_range v bytes n of Inl _ \<Rightarrow> (\<exists>e. bb_write_cont_range (bb_of v) bytes = Inl e)
          | Inr v' \<Rightarrow> bb_write_cont_range (bb_of v) bytes = Inr (bb_of v') \<and> v_ok v' \<and>
                      ((if bytes = [] then v_published v else n) \<longrightarrow> v_published v'))"
proof (cases "bytes = []")
  case True
  then show ?thesis using assms by (simp add: v_write_cont_range_def bb_write_cont_range_def)
next
  case ne: False
  let ?v1 = "v_add_block_if_needed_cont v (length bytes)"
  have ok1: "v_ok ?v1" by (rule v_ok_add_block_if_needed_cont[OF assms])
  note le = v_ok_le[OF ok1] and sg = v_ok_segs[OF ok1]
  have B: "v_block_size ?v1 = v_block_size v"
    by (simp add: v_add_block_if_needed_cont_def v_add_block_def)
  show ?thesis
  proof (cases "v_copy_to_back ?v1 bytes")
    case (Inl e)
    then show ?thesis using ne assms sg
      by (simp add: v_write_cont_range_def bb_write_cont_range_def
          bb_add_block_if_needed_cont_of bb_copy_to_back_of)
  next
    case (Inr v2)
    from v_ok_copy_to_back[OF ok1 Inr ne]
    have c: "v_wpos_private ?v1 + length bytes \<le> v_block_size ?v1"
      "v_ok (v2\<lparr>v_wpos_private := v_wpos_private ?v1 + length bytes\<rparr>)" by blast+
    have w2: "v_wpos_private v2 = v_wpos_private ?v1"
      using Inr by (auto simp: v_copy_to_back_def split: if_splits option.splits)
    have a: "sz_add (v_wpos_private v2) (length bytes) = v_wpos_private ?v1 + length bytes"
      unfolding w2 using c(1) le by (intro sz_add_small) simp
    let ?v3 = "v2\<lparr>v_wpos_private := sz_add (v_wpos_private v2) (length bytes)\<rparr>"
    have ok3: "v_ok ?v3" using c(2) a by simp
    have kB: "length bytes \<le> v_block_size v" using c(1) B by simp
    show ?thesis using ne assms sg Inr kB ok3 v_ok_notify[OF ok3] v_ok_segs[OF ok3]
      by (simp add: v_write_cont_range_def bb_write_cont_range_def
          bb_add_block_if_needed_cont_of bb_copy_to_back_of Let_def)
  qed
qed

lemma bb_write_cont_string_of:
  assumes "v_ok v" "str \<noteq> []"
  shows "twin_res (v_write_cont_string v str True) (bb_write_cont_string (bb_of v) str)"
proof (cases "v_write_cont_range v (encode_size (length str)) False")
  case (Inl e)
  then show ?thesis using bb_write_cont_range_of[OF assms(1), of "encode_size (length str)" False]
    by (auto simp: twin_res_def v_write_cont_string_def bb_write_cont_string_def
        bb_write_cont_T_def)
next
  case (Inr v1)
  with bb_write_cont_range_of[OF assms(1), of "encode_size (length str)" False]
  have 1: "bb_write_cont_range (bb_of v) (encode_size (length str)) = Inr (bb_of v1)" "v_ok v1"
    by simp_all
  show ?thesis using bb_write_cont_range_of[OF 1(2), of str True] 1(1) Inr assms(2)
    by (auto simp: twin_res_def v_write_cont_string_def bb_write_cont_string_def
        bb_write_cont_T_def split: sum.splits)
qed

lemma bb_pop_block_if_needed_of:
  assumes "v_ok v"
  shows "bb_pop_block_if_needed (bb_of v) k = lift_bb (v_pop_block_if_needed v k) \<and>
     (\<forall>v'. v_pop_block_if_needed v k = Inr v' \<longrightarrow>
        v_ok v' \<and> (v_published v \<longrightarrow> v_published v'))"
proof (cases "v_segs v")
  case Nil
  then show ?thesis using v_ok_segs[OF assms] by simp
next
  case (Cons x xs)
  show ?thesis
  proof (cases xs)
    case Nil
    then have sg: "v_segs v = [x]" using Cons by simp
    then have "v_one_block_left v" using assms by (auto simp: v_ok_def)
    then show ?thesis using sg assms
      by (simp add: bb_pop_block_if_needed_def v_pop_block_if_needed_def sq_front_def)
  next
    case c2: (Cons y ys)
    then have sg: "v_segs v = x # y # ys" using Cons by simp
    have x: "snd x \<le> v_block_size v" "v_block_size v < npos"
      using assms sg by (auto simp: v_ok_def)
    then have xn: "snd x \<noteq> npos" by simp
    let ?v' = "v\<lparr>v_segs := y # ys, v_pres := v_pres v @ [x], v_rpos := 0,
                  v_one_block_left := (ys = [])\<rparr>"
    have ok': "v_ok ?v'" using assms sg by (auto simp: v_ok_def v_wf_def)
    have pb: "v_published v \<longrightarrow> v_published ?v'" using sg by (simp add: v_published_def)
    have bo: "bb_of ?v' = (bb_of v)\<lparr>bb_preserved_list := v_pres v @ [x],
        bb_buf := butlast (y # ys) @ [(fst (last (y # ys)), npos)], bb_rpos := 0\<rparr>"
      by (simp add: bb_of_def)
    show ?thesis using sg xn ok' pb bo assms
      by (simp add: bb_pop_block_if_needed_def v_pop_block_if_needed_def sq_front_def
          bb_pop_block_def v_pop_block_def sq_pop_def)
  qed
qed

lemma bb_front_slice_of: "v_segs v \<noteq> [] \<Longrightarrow> bb_front_slice (bb_of v) k = v_front_slice v k"
proof -
  assume "v_segs v \<noteq> []"
  then obtain x xs where sg: "v_segs v = x # xs" by (cases "v_segs v") auto
  show ?thesis using sg
    by (cases xs) (auto simp: bb_front_slice_def v_front_slice_def sq_front_def
        split: option.splits)
qed

lemma bb_read_T_of:
  assumes "v_ok v"
  shows "bb_read_T (bb_of v) k =
           (case v_read_T v k of Inl e \<Rightarrow> Inl e | Inr (res, v') \<Rightarrow> Inr (res, bb_of v')) \<and>
         (\<forall>res v'. v_read_T v k = Inr (res, v') \<longrightarrow>
            v_ok v' \<and> (v_published v \<longrightarrow> v_published v'))"
proof (cases "v_pop_block_if_needed v k")
  case (Inl e)
  then show ?thesis using bb_pop_block_if_needed_of[OF assms, of k]
    by (simp add: bb_read_T_def v_read_T_def)
next
  case (Inr v1)
  with bb_pop_block_if_needed_of[OF assms, of k]
  have 1: "bb_pop_block_if_needed (bb_of v) k = Inr (bb_of v1)" "v_ok v1"
    "v_published v \<longrightarrow> v_published v1" by simp_all
  have ok2: "v_ok (v1\<lparr>v_rpos := r\<rparr>)" for r using 1(2) by (simp add: v_ok_def v_wf_def)
  have p2: "v_published (v1\<lparr>v_rpos := r\<rparr>) = v_published v1" for r
    by (simp add: v_published_def)
  show ?thesis using 1 Inr ok2 p2 bb_front_slice_of[OF v_ok_segs[OF 1(2)], of k]
    by (cases "v_front_slice v1 k") (simp_all add: bb_read_T_def v_read_T_def)
qed

lemma v_published_add_block [simp]: "v_published (v_add_block v)"
  by (simp add: v_published_def v_add_block_def)

lemma bb_ensure_cont_of:
  assumes "v_ok v"
  shows "bb_ensure_cont (bb_of v) k = Inr (fst (v_ensure_cont v k), bb_of (snd (v_ensure_cont v k)))
     \<and> v_ok (snd (v_ensure_cont v k)) \<and>
     (v_published v \<longrightarrow> v_published (snd (v_ensure_cont v k)))"
  using assms v_ok_add_block_if_needed_cont[OF assms, of k]
  by (simp add: bb_ensure_cont_def v_ensure_cont_def bb_add_block_if_needed_cont_of Let_def)
     (simp add: v_add_block_if_needed_cont_def)

lemma bb_empty_of:
  assumes "v_ok v" "v_published v"
  shows "bb_empty (bb_of v) = Inr (fst (v_empty v)) \<and> bb_of (snd (v_empty v)) = bb_of v \<and>
     v_ok (snd (v_empty v)) \<and> v_published (snd (v_empty v))"
proof (cases "v_segs v")
  case Nil
  then show ?thesis using v_ok_segs[OF assms(1)] by simp
next
  case (Cons x xs)
  show ?thesis
  proof (cases xs)
    case Nil
    then have sg: "v_segs v = [x]" using Cons by simp
    then have "v_one_block_left v" using assms by (auto simp: v_ok_def)
    then show ?thesis using sg assms
      by (auto simp: bb_empty_def v_empty_def sq_front_def Let_def v_published_def v_ok_def
          v_wf_def)
  next
    case c2: (Cons y ys)
    then have sg: "v_segs v = x # y # ys" using Cons by simp
    have x: "snd x \<le> v_block_size v" "v_block_size v < npos"
      using assms sg by (auto simp: v_ok_def)
    then have xn: "snd x \<noteq> npos" by simp
    show ?thesis using sg assms xn
      by (auto simp: bb_empty_def v_empty_def sq_front_def Let_def v_published_def v_ok_def
          v_wf_def)
  qed
qed

lemma v_published_add_block_if_needed:
  "v_published v \<Longrightarrow> v_published (v_add_block_if_needed v)"
  by (simp add: v_add_block_if_needed_def)

lemma bb_input_loop_of:
  "v_ok v \<Longrightarrow> 0 \<le> tot \<Longrightarrow> (tot = 0 \<longrightarrow> v_published v) \<Longrightarrow>
   (case v_input_loop v cont (- 1) tot rs of
      Inl e \<Rightarrow> bb_input_loop (bb_of v) cont tot rs = Inl e
    | Inr (n, v', rest) \<Rightarrow> bb_input_loop (bb_of v) cont tot rs = Inr (n, bb_of v', rest) \<and>
                          v_ok v' \<and> v_published v')"
proof (induction rs arbitrary: v tot)
  case Nil
  show ?case by simp
next
  case (Cons r rs)
  let ?v1 = "v_add_block_if_needed v"
  let ?room = "sz_sub (v_block_size ?v1) (v_wpos_private ?v1)"
  let ?len = "fst r"
  have ok1: "v_ok ?v1" by (rule v_ok_add_block_if_needed[OF Cons.prems(1)])
  note le = v_ok_le[OF ok1] and sg = v_ok_segs[OF ok1]
  have p1: "tot = 0 \<longrightarrow> v_published ?v1"
    using Cons.prems(3) v_published_add_block_if_needed by blast
  note n1 = v_ok_notify[OF ok1]
  have b1: "bb_add_block_if_needed (bb_of v) = Inr (bb_of ?v1)"
    by (rule bb_add_block_if_needed_of[OF Cons.prems(1)])
  show ?case
  proof (cases "int ?room < ?len \<or> (0 < ?len \<and> int (length (snd r)) \<noteq> ?len)")
    case True
    then show ?thesis by (simp add: b1 Let_def del: sz_sub_le)
  next
    case ok: False
    show ?thesis
    proof (cases "?len \<le> 0")
      case True
      then show ?thesis using ok p1 n1 ok1 sg Cons.prems(2)
        by (auto simp: b1 Let_def simp del: sz_sub_le)
    next
      case pos: False
      then have ne: "snd r \<noteq> []" and ll: "int (length (snd r)) = ?len" using ok by auto
      have room: "?room = v_block_size ?v1 - v_wpos_private ?v1" using le by simp
      have ts: "to_size ?len = length (snd r)"
      proof -
        have "?len < 2 ^ 64" using ok le room by auto
        then have "?len mod 2 ^ 64 = ?len" using pos by simp
        then show ?thesis using ll by (simp add: to_size_def)
      qed
      show ?thesis
      proof (cases "v_copy_to_back ?v1 (snd r)")
        case (Inl e)
        then show ?thesis using ok pos sg
          by (simp add: b1 Let_def bb_copy_to_back_of del: sz_sub_le)
      next
        case (Inr v2)
        from v_ok_copy_to_back[OF ok1 Inr ne]
        have c: "v_wpos_private ?v1 + length (snd r) \<le> v_block_size ?v1"
          "v_ok (v2\<lparr>v_wpos_private := v_wpos_private ?v1 + length (snd r)\<rparr>)" by blast+
        have w2: "v_wpos_private v2 = v_wpos_private ?v1"
          using Inr by (auto simp: v_copy_to_back_def split: if_splits option.splits)
        have a: "sz_add (v_wpos_private v2) (to_size ?len) =
                   v_wpos_private ?v1 + length (snd r)"
          unfolding w2 ts using c(1) le by (intro sz_add_small) simp
        let ?v3 = "v2\<lparr>v_wpos_private := sz_add (v_wpos_private v2) (to_size ?len)\<rparr>"
        have ok3: "v_ok ?v3" using c(2) a by simp
        have tp: "0 < tot + ?len" using pos Cons.prems(2) by simp
        show ?thesis
        proof (cases cont)
          case True
          then show ?thesis using ok pos sg Inr tp v_ok_notify[OF ok3] v_ok_segs[OF ok3]
            by (simp add: b1 Let_def bb_copy_to_back_of del: sz_sub_le)
        next
          case False
          have ih: "case v_input_loop ?v3 cont (- 1) (tot + ?len) rs of
              Inl e \<Rightarrow> bb_input_loop (bb_of ?v3) cont (tot + ?len) rs = Inl e
            | Inr (n, v', rest) \<Rightarrow>
                bb_input_loop (bb_of ?v3) cont (tot + ?len) rs = Inr (n, bb_of v', rest) \<and>
                v_ok v' \<and> v_published v'"
            using tp by (intro Cons.IH[OF ok3]) simp_all
          have L: "bb_input_loop (bb_of v) cont tot (r # rs) =
                     bb_input_loop (bb_of ?v3) cont (tot + ?len) rs"
            using ok pos sg Inr False
            by (simp add: b1 Let_def bb_copy_to_back_of del: sz_sub_le)
          have R: "v_input_loop v cont (- 1) tot (r # rs) =
                     v_input_loop ?v3 cont (- 1) (tot + ?len) rs"
            using ok pos Inr False by (simp add: Let_def del: sz_sub_le)
          show ?thesis unfolding L R by (rule ih)
        qed
      qed
    qed
  qed
qed

lemma sim_ensure_cont:
  assumes "sees s v"
  shows "\<exists>a s'. ensure_cont s k = Inr ((a, fst (v_ensure_cont v k)), s') \<and>
           sees s' (snd (v_ensure_cont v k))"
proof -
  from sim_add_block_if_needed_cont[OF assms, of k] obtain s1 where
    s1: "add_block_if_needed_cont s k = Inr s1" "sees s1 (v_add_block_if_needed_cont v k)"
    by (auto simp: sim_def rel_res_def)
  from sees_rep[OF s1(2)] have "brep (buf s1) (wpos s1) (v_segs (v_add_block_if_needed_cont v k))"
    by (simp add: rep_def)
  from brep_back[OF this] obtain a where a: "back_ref (buf s1) = Inr a" by blast
  have w: "wpos_private s1 = v_wpos_private (v_add_block_if_needed_cont v k)"
    using s1(2) by (simp add: sees_def)
  show ?thesis using s1 a w by (simp add: ensure_cont_def v_ensure_cont_def Let_def)
qed

lemma sim_empty:
  assumes "sees s v"
  shows "\<exists>s'. empty s = Inr (fst (v_empty v), s') \<and> sees s' (snd (v_empty v))"
proof -
  note r = sees_rep[OF assms]
  note c = check_one_block_left_rep[OF r]
  have f: "one_block_left s = v_one_block_left v" "rpos s = v_rpos v"
    using assms by (simp_all add: sees_def)
  have r1: "rep (s\<lparr>one_block_left := b\<rparr>) (v_segs v) (v_pres v) (v_frees v)" for b
    using r by (simp add: rep_def)
  note l = load_end_rep[OF r1]
  show ?thesis using c f l sees_upd(3)[OF assms] assms
    by (auto simp: empty_def v_empty_def Let_def)
qed

lemma sim_input_loop:
  "sees s v \<Longrightarrow>
   rel_res (\<lambda>x y. fst x = fst y \<and> sees (fst (snd x)) (fst (snd y)) \<and> snd (snd x) = snd (snd y))
     (input_loop s cont max_len tot rs) (v_input_loop v cont max_len tot rs)"
proof (induction rs arbitrary: s v tot)
  case Nil
  show ?case by simp
next
  case (Cons r rs)
  let ?v1 = "v_add_block_if_needed v"
  from sim_add_block_if_needed[OF Cons.prems] obtain s1 where
    s1: "add_block_if_needed s = Inr s1" "sees s1 ?v1" by (auto simp: sim_def rel_res_def)
  have e: "block_size s1 = v_block_size ?v1" "wpos_private s1 = v_wpos_private ?v1"
    using s1(2) by (simp_all add: sees_def)
  define count where "count = (if max_len = - 1 then sz_sub (v_block_size ?v1) (v_wpos_private ?v1)
     else min (to_size (max_len - tot)) (sz_sub (v_block_size ?v1) (v_wpos_private ?v1)))"
  define bad where "bad = (int count < fst r \<or> (0 < fst r \<and> int (length (snd r)) \<noteq> fst r))"
  have L: "input_loop s cont max_len tot (r # rs) =
     (if bad then Inl BadResponse
      else if fst r < 0 then
        (if tot = 0 then Inr (fst r, s1, rs) else input_done s1 tot rs)
      else if fst r = 0 then input_done s1 tot rs
      else
        bindF (copy_to_back s1 (snd r)) (\<lambda>s2.
        if cont then input_done (s2\<lparr>wpos_private := sz_add (wpos_private s2) (to_size (fst r))\<rparr>)
                       (tot + fst r) rs
        else input_loop (s2\<lparr>wpos_private := sz_add (wpos_private s2) (to_size (fst r))\<rparr>)
               cont max_len (tot + fst r) rs))"
    unfolding bad_def count_def input_loop.simps s1(1) bindF_Inr Let_def e by (rule refl)
  have R: "v_input_loop v cont max_len tot (r # rs) =
     (if bad then Inl BadResponse
      else if fst r \<le> 0 then
        (if fst r < 0 \<and> tot = 0 then Inr (fst r, ?v1, rs)
         else Inr (tot, if tot > 0 then v_notify ?v1 else ?v1, rs))
      else
        bindF (v_copy_to_back ?v1 (snd r)) (\<lambda>v2.
        if cont then
          Inr (tot + fst r,
               if tot + fst r > 0
               then v_notify (v2\<lparr>v_wpos_private := sz_add (v_wpos_private v2) (to_size (fst r))\<rparr>)
               else v2\<lparr>v_wpos_private := sz_add (v_wpos_private v2) (to_size (fst r))\<rparr>, rs)
        else v_input_loop (v2\<lparr>v_wpos_private := sz_add (v_wpos_private v2) (to_size (fst r))\<rparr>)
               cont max_len (tot + fst r) rs))"
    unfolding bad_def count_def v_input_loop.simps Let_def by (rule refl)
  have dn: "rel_res (\<lambda>x y. fst x = fst y \<and> sees (fst (snd x)) (fst (snd y)) \<and>
                snd (snd x) = snd (snd y))
       (input_done s' t rs) (Inr (t, if t > 0 then v_notify v' else v', rs))"
    if "sees s' v'" for s' v' t
    using sim_notify[OF that] that by (auto simp: input_done_def sim_def rel_res_def)
  show ?case
  proof (cases bad)
    case True
    then show ?thesis unfolding L R by simp
  next
    case ok: False
    show ?thesis
    proof (cases "fst r \<le> 0")
      case True
      show ?thesis
      proof (cases "fst r < 0 \<and> tot = 0")
        case t: True
        then show ?thesis unfolding L R using ok True s1(2) by simp
      next
        case False
        have "input_loop s cont max_len tot (r # rs) = input_done s1 tot rs"
          unfolding L using ok True False by auto
        moreover have "v_input_loop v cont max_len tot (r # rs) =
            Inr (tot, if tot > 0 then v_notify ?v1 else ?v1, rs)"
          unfolding R using ok True False by auto
        ultimately show ?thesis using dn[OF s1(2), of tot] by simp
      qed
    next
      case pos: False
      show ?thesis
      proof (cases "v_copy_to_back ?v1 (snd r)")
        case (Inl er)
        then have "copy_to_back s1 (snd r) = Inl er"
          using sim_copy_to_back[OF s1(2), of "snd r"] by (simp add: sim_def)
        then show ?thesis unfolding L R using ok pos Inl by simp
      next
        case (Inr v2)
        with sim_copy_to_back[OF s1(2), of "snd r"] obtain s2 where
          s2: "copy_to_back s1 (snd r) = Inr s2" "sees s2 v2"
          by (auto simp: sim_def rel_res_def)
        have w: "wpos_private s2 = v_wpos_private v2" using s2(2) by (simp add: sees_def)
        let ?v3 = "v2\<lparr>v_wpos_private := sz_add (v_wpos_private v2) (to_size (fst r))\<rparr>"
        let ?s3 = "s2\<lparr>wpos_private := sz_add (wpos_private s2) (to_size (fst r))\<rparr>"
        have s3: "sees ?s3 ?v3" unfolding w by (rule sees_upd(1)[OF s2(2)])
        show ?thesis
        proof (cases cont)
          case True
          have "input_loop s cont max_len tot (r # rs) = input_done ?s3 (tot + fst r) rs"
            unfolding L using ok pos True s2(1) by simp
          moreover have "v_input_loop v cont max_len tot (r # rs) =
              Inr (tot + fst r, if tot + fst r > 0 then v_notify ?v3 else ?v3, rs)"
            unfolding R using ok pos True Inr by simp
          ultimately show ?thesis using dn[OF s3, of "tot + fst r"] by simp
        next
          case False
          have "input_loop s cont max_len tot (r # rs) =
                  input_loop ?s3 cont max_len (tot + fst r) rs"
            unfolding L using ok pos False s2(1) by simp
          moreover have "v_input_loop v cont max_len tot (r # rs) =
              v_input_loop ?v3 cont max_len (tot + fst r) rs"
            unfolding R using ok pos False Inr by simp
          ultimately show ?thesis using Cons.IH[OF s3, of "tot + fst r"] by simp
        qed
      qed
    qed
  qed
qed

lemma agree_void:
  assumes "rel_res sees m mv" "twin_res mv mb"
  shows "agree (bindF m (\<lambda>s'. Inr (R_void, s'))) (bindF mb (\<lambda>t'. Inr (R_void, t')))"
proof (cases mv)
  case (Inl e)
  then show ?thesis using assms by (auto simp: agree_def twin_res_def)
next
  case (Inr v')
  then show ?thesis using assms by (auto simp: agree_def twin_res_def same_def rel_res_def)
qed

lemma twin_write_range:
  "v_ok v \<Longrightarrow> twin_res (v_write_range v bytes True) (bb_write_range (bb_of v) bytes)"
  using bb_write_range_of[of v bytes True]
  by (cases "v_write_range v bytes True") (simp_all add: twin_res_def)

lemma twin_write_string:
  "v_ok v \<Longrightarrow> twin_res (v_write_string v str True) (bb_write_string (bb_of v) str)"
  using bb_write_string_of[of v str]
  by (cases "v_write_string v str True") (simp_all add: twin_res_def)

lemma twin_write_cont_range:
  "v_ok v \<Longrightarrow> v_published v \<Longrightarrow>
   twin_res (v_write_cont_range v bytes True) (bb_write_cont_range (bb_of v) bytes)"
  using bb_write_cont_range_of[of v bytes True]
  by (cases "v_write_cont_range v bytes True") (auto simp: twin_res_def)

lemma step_agree:
  assumes "same s t" "c \<noteq> Write_cont_string []"
  shows "agree (step s c) (bb_step t c)"
proof -
  from assms(1) obtain v where v: "sees s v" "v_ok v" "v_published v" and t: "t = bb_of v"
    by (auto simp: same_def)
  show ?thesis
  proof (cases c)
    case (Write_range bytes)
    show ?thesis unfolding Write_range t step.simps bb_step.simps
      by (rule agree_void[OF sim_write_range[OF v(1), unfolded sim_def] twin_write_range[OF v(2)]])
  next
    case (Write_T rp)
    show ?thesis unfolding Write_T t step.simps bb_step.simps write_T_def bb_write_T_def
      by (rule agree_void[OF sim_write_range[OF v(1), unfolded sim_def] twin_write_range[OF v(2)]])
  next
    case (Write_string str)
    show ?thesis unfolding Write_string t step.simps bb_step.simps
      by (rule agree_void[OF sim_write_string[OF v(1), unfolded sim_def]
            twin_write_string[OF v(2)]])
  next
    case (Write_cont_range bytes)
    show ?thesis unfolding Write_cont_range t step.simps bb_step.simps
      by (rule agree_void[OF sim_write_cont_range[OF v(1), unfolded sim_def]
            twin_write_cont_range[OF v(2,3)]])
  next
    case (Write_cont_T rp)
    show ?thesis
      unfolding Write_cont_T t step.simps bb_step.simps write_cont_T_def bb_write_cont_T_def
      by (rule agree_void[OF sim_write_cont_range[OF v(1), unfolded sim_def]
            twin_write_cont_range[OF v(2,3)]])
  next
    case (Write_cont_string str)
    then have ne: "str \<noteq> []" using assms(2) by simp
    show ?thesis unfolding Write_cont_string t step.simps bb_step.simps
      by (rule agree_void[OF sim_write_cont_string[OF v(1), unfolded sim_def]
            bb_write_cont_string_of[OF v(2) ne]])
  next
    case (Read_T k)
    note b = bb_read_T_of[OF v(2), of k]
    show ?thesis
    proof (cases "v_read_T v k")
      case (Inl e)
      then have "read_T s k = Inl e" using simr_read_T[OF v(1), of k] by (simp add: simr_def)
      then show ?thesis using b Inl by (simp add: Read_T t agree_def)
    next
      case (Inr y)
      obtain res v' where y: "y = (res, v')" by (cases y)
      from simr_read_T[OF v(1), of k] Inr y obtain s' where
        s': "read_T s k = Inr (res, s')" "sees s' v'" by (auto simp: simr_def rel_res_def)
      show ?thesis using b Inr y s' v(3) by (auto simp: Read_T t agree_def same_def)
    qed
  next
    case (Ensure_cont k)
    from sim_ensure_cont[OF v(1), of k] obtain a s' where
      s': "ensure_cont s k = Inr ((a, fst (v_ensure_cont v k)), s')"
          "sees s' (snd (v_ensure_cont v k))" by blast
    show ?thesis using bb_ensure_cont_of[OF v(2), of k] s' v(3)
      by (auto simp: Ensure_cont t agree_def same_def)
  next
    case Empty
    from sim_empty[OF v(1)] obtain s' where
      s': "empty s = Inr (fst (v_empty v), s')" "sees s' (snd (v_empty v))" by blast
    show ?thesis using bb_empty_of[OF v(2,3)] s'
      by (auto simp: Empty t agree_def same_def)
  next
    case (Input_from_fd cont rs)
    note b = bb_input_loop_of[OF v(2), of 0 cont rs]
    note a = sim_input_loop[OF v(1), of cont "- 1" 0 rs]
    show ?thesis
    proof (cases "v_input_loop v cont (- 1) 0 rs")
      case (Inl e)
      then show ?thesis using a b v(3)
        by (simp add: Input_from_fd t agree_def input_from_fd_def bb_input_from_fd_def)
    next
      case (Inr y)
      obtain n v' rest where y: "y = (n, v', rest)" by (cases y)
      from a Inr y obtain s' where s': "input_loop s cont (- 1) 0 rs = Inr (n, s', rest)"
        "sees s' v'" by (auto simp: rel_res_def)
      show ?thesis using b Inr y s' v(3)
        by (auto simp: Input_from_fd t agree_def same_def input_from_fd_def bb_input_from_fd_def)
    qed
  qed
qed

lemma trace_agree:
  "same s t \<Longrightarrow> Write_cont_string [] \<notin> set cs \<Longrightarrow> trace s cs = bb_trace t cs"
proof (induction cs arbitrary: s t)
  case Nil
  show ?case by simp
next
  case (Cons c cs)
  then have c: "c \<noteq> Write_cont_string []" and cs: "Write_cont_string [] \<notin> set cs" by auto
  note a = step_agree[OF Cons.prems(1) c]
  show ?case
  proof (cases "step s c")
    case (Inl e)
    then show ?thesis using a by (auto simp: agree_def)
  next
    case (Inr x)
    with a obtain t' where t': "bb_step t c = Inr (fst x, t')" "same (snd x) t'"
      by (auto simp: agree_def)
    show ?thesis using Inr t' Cons.IH[OF t'(2) cs] by simp
  qed
qed

lemma same_init:
  assumes "init pagesz (unset u) bs = Inr s" "(if bs = - 1 then pagesz else to_size bs) < npos"
  shows "same s (bb_construct pagesz u bs)"
proof -
  let ?B = "if bs = - 1 then pagesz else to_size bs"
  let ?v = "\<lparr>v_block_size = ?B, v_segs = [(Some (map (u 0) [0..<?B]), 0)],
             v_pres = [], v_frees = [], v_rpos = 0, v_wpos_private = 0,
             v_one_block_left = True, v_uninit = u, v_allocs = 1\<rparr>"
  from init_sees[of pagesz u bs] assms(1) have s: "sees s ?v" by auto
  have np: "npos < 2 ^ 64" by (simp add: npos_def)
  have ok: "v_ok ?v" using assms(2) np by (simp add: v_ok_def v_wf_def)
  have pb: "v_published ?v" by (simp add: v_published_def)
  have "bb_construct pagesz u bs = bb_of ?v"
    by (simp add: bb_construct_def bb_of_def bb_new_block_def Let_def)
  then show ?thesis using s ok pb unfolding same_def by blast
qed

section \<open>The example states evaluated\<close>

lemma ex_one_init: "init 4096 (unset gar) 4 = Inr ex_one"
  by (simp add: init_def unset_def ex_one_def q_emplace_def q_push_def q_init_def
      free_list_empty_def back_ref_def new_block_def gar_def to_size_def upt_rec)

lemma ex_two_write: "write_range ex_one ''abcdef'' True = Inr ex_two"
  by (simp add: write_range_def write_loop.simps add_block_if_needed_def add_block_def
      copy_to_back_def notify_def store_end_def get_obj_def set_obj_def
      ex_one_def ex_two_def q_emplace_def q_push_def q_init_def q_empty_def sz_sub_def sz_add_def
      free_list_empty_def back_ref_def new_block_def gar_def upt_rec)

lemmas ex_simps = write_range_def write_loop.simps add_block_if_needed_def add_block_def
      copy_to_back_def notify_def store_end_def load_end_def get_obj_def set_obj_def
      q_emplace_def q_push_def q_pop_def q_init_def q_empty_def sz_sub_def sz_add_def
      free_list_empty_def back_ref_def front_ref_def new_block_def gar_def upt_rec
      read_T_def pop_block_if_needed_def pop_block_def check_one_block_left_def
      front_end_def front_slice_def

lemma ex_three_write: "write_range ex_one ''abcdefghij'' True = Inr (ex_three\<lparr>rpos := 0\<rparr>)"
  by (simp add: ex_simps ex_one_def ex_three_def)

lemma ex_three_read: "read_T (ex_three\<lparr>rpos := 0\<rparr>) 4 = Inr (''abcd'', ex_three)"
  by (simp add: ex_simps ex_three_def)

lemma ex_behind_read: "read_T ex_three 4 = Inr (''efgh'', ex_behind)"
  by (simp add: ex_simps ex_three_def ex_behind_def)

lemma ex_three_reachable: "reachable ex_three"
  by (rule r_read_T[OF r_write_range[OF r_construct[OF ex_one_init] ex_three_write] ex_three_read])

lemma ex_behind_reachable: "reachable ex_behind"
  by (rule r_read_T[OF ex_three_reachable ex_behind_read])

lemma ex_two_reachable: "reachable ex_two"
  by (rule r_write_range[OF r_construct[OF ex_one_init] ex_two_write])


lemma sees_ex_ab: "sees ex_ab v_ab"
proof -
  have "brep (buf ex_ab) (wpos ex_ab) [(Some ''ab..'', 2)]"
    by (rule brepI[of _ "[0, 2]" "[1]"]) (simp_all add: ex_ab_def q_rep_def q_vals_def)
  then show ?thesis
    by (simp add: sees_def rep_def v_ab_def q_holds_init) (simp add: ex_ab_def q_holds_init)
qed

lemma v_wf_v_ab: "v_wf v_ab"
  by (simp add: v_wf_def v_ab_def)

lemmas v_simps = v_write_string_def v_write_range_def v_write_loop.simps v_add_block_if_needed_def
  v_add_block_def v_copy_to_back_def v_notify_def v_new_block_def v_get_string_def v_read_T_def
  v_pop_block_if_needed_def v_pop_block_def v_front_slice_def v_clear_preserved_def
  sz_add_def sz_sub_def gar_def upt_rec

lemma encode_size_bytes:
  "encode_size n = [char_of n, char_of (n div 256), char_of (n div 256 div 256),
     char_of (n div 256 div 256 div 256), char_of (n div 256 div 256 div 256 div 256),
     char_of (n div 256 div 256 div 256 div 256 div 256),
     char_of (n div 256 div 256 div 256 div 256 div 256 div 256),
     char_of (n div 256 div 256 div 256 div 256 div 256 div 256 div 256)]"
proof -
  have e: "(8 :: nat) = Suc (Suc (Suc (Suc (Suc (Suc (Suc (Suc 0)))))))" by simp
  show ?thesis unfolding encode_size_def e by (simp del: One_nat_def)
qed

lemma enc_ten: "encode_size (length ''0123456789'') = [CHR 0x0A, CHR 0x00, CHR 0x00, CHR 0x00, CHR 0x00, CHR 0x00, CHR 0x00, CHR 0x00]"
proof -
  have l: "length ''0123456789'' = 10" by simp
  show ?thesis unfolding l encode_size_bytes by (simp add: char_of_def bit_Suc_0_iff bit_0)
qed

lemma v_sixteen_write:
  "v_write_string v_sixteen ''0123456789'' True = Inr v_straddle"
  unfolding v_write_string_def enc_ten
  by (simp add: v_simps v_sixteen_def v_straddle_def)

lemma v_straddle_get:
  "v_get_string v_straddle = Inr (''89........'', v_straddle\<lparr>v_segs := [(Some ''89..............'', 2)],
      v_frees := [Some ([CHR 0x0A, CHR 0x00, CHR 0x00, CHR 0x00, CHR 0x00, CHR 0x00, CHR 0x00, CHR 0x00] @ ''01234567'')],
      v_rpos := 10\<rparr>)"
  by (simp add: v_simps v_sixteen_def v_straddle_def)

lemma sees_sixteen: "\<exists>s. init 4096 (unset gar) 16 = Inr s \<and> sees s v_sixteen"
  using init_sees[of 4096 gar 16] by (simp add: to_size_def v_sixteen_def gar_def upt_rec)

lemma v_wf_sixteen: "v_wf v_sixteen"
  by (simp add: v_wf_def v_sixteen_def)

text \<open>\<open>v_hidden\<close>: the 16-byte buffer after \<^verbatim>\<open>write_cont\<close> of the empty string, whose length
  prefix has been copied but not published.\<close>

lemma enc_zero: "encode_size (length ([] :: char list)) =
    [CHR 0x00, CHR 0x00, CHR 0x00, CHR 0x00, CHR 0x00, CHR 0x00, CHR 0x00, CHR 0x00]"
  unfolding encode_size_bytes by (simp add: char_of_def)

lemma enc_two: "encode_size (length ''hi'') =
    [CHR 0x02, CHR 0x00, CHR 0x00, CHR 0x00, CHR 0x00, CHR 0x00, CHR 0x00, CHR 0x00]"
proof -
  have l: "length ''hi'' = 2" by simp
  show ?thesis unfolding l encode_size_bytes by (simp add: char_of_def bit_Suc_0_iff bit_0)
qed

lemma v_sixteen_write_cont: "v_write_cont_string v_sixteen [] True = Inr v_hidden"
  unfolding v_write_cont_string_def enc_zero
  by (simp add: v_write_cont_range_def v_add_block_if_needed_cont_def v_copy_to_back_def
      v_sixteen_def v_hidden_def sz_sub_def sz_add_def)

lemma v_hidden_empty: "v_empty v_hidden = (True, v_hidden)"
  by (simp add: v_empty_def v_hidden_def v_sixteen_def)

lemma bb_sixteen_write_cont:
  "bb_write_cont_string (bb_construct 4096 gar 16) [] =
     Inr ((bb_construct 4096 gar 16)\<lparr>bb_buf :=
        [(Some ([CHR 0x00, CHR 0x00, CHR 0x00, CHR 0x00, CHR 0x00, CHR 0x00, CHR 0x00, CHR 0x00]
                @ ''........''), npos)], bb_wpos := 8\<rparr>)"
  unfolding bb_write_cont_string_def enc_zero
  by (simp add: bb_write_cont_T_def bb_write_cont_range_def bb_add_block_if_needed_cont_def
      bb_copy_to_back_def bb_construct_def bb_new_block_def to_size_def sz_sub_def sz_add_def
      sq_back_def gar_def upt_rec Let_def)

lemmas bb_simps = bb_write_string_def bb_write_T_def bb_write_range_def bb_write_loop.simps
  bb_add_block_if_needed_def bb_add_block_def bb_copy_to_back_def bb_read_T_def
  bb_pop_block_if_needed_def bb_pop_block_def bb_front_slice_def bb_empty_def
  bb_construct_def bb_new_block_def sq_front_def sq_back_def sq_pop_def
  sz_add_def sz_sub_def to_size_def gar_def upt_rec Let_def

lemma bb_sixteen_write:
  "bb_write_string (bb_construct 4096 gar 16) ''hi'' =
     Inr ((bb_construct 4096 gar 16)\<lparr>bb_buf :=
        [(Some ([CHR 0x02, CHR 0x00, CHR 0x00, CHR 0x00, CHR 0x00, CHR 0x00, CHR 0x00, CHR 0x00]
                @ ''hi......''), npos)], bb_wpos := 10\<rparr>)"
  unfolding bb_write_string_def enc_two
  by (simp add: bb_simps)

lemma bb_sixteen_trace:
  "bb_trace (bb_construct 4096 gar 16) [Write_string ''hi'', Empty, Read_T 8, Read_T 2, Empty] =
     [Some R_void, Some (R_bool False),
      Some (R_bytes [CHR 0x02, CHR 0x00, CHR 0x00, CHR 0x00, CHR 0x00, CHR 0x00, CHR 0x00, CHR 0x00]),
      Some (R_bytes ''hi''), Some (R_bool True)]"
  by (simp add: bb_sixteen_write) (simp add: bb_simps npos_def)

lemma v_sixteen_write_empty: "v_write_string v_sixteen [] True = Inr v_shown"
  unfolding v_write_string_def enc_zero
  by (simp add: v_simps v_sixteen_def v_shown_def)

lemma v_shown_empty: "v_empty v_shown = (False, v_shown)"
  by (simp add: v_empty_def v_shown_def v_sixteen_def)

section \<open>The claims\<close>

subsection \<open>C7: the queue is first-in first-out behind a dummy head\<close>

text \<open>
  \<^bold>\<open>C7.\<close>  \<^verbatim>\<open>pop()\<close> does not destroy the payload of the element it removes.  On the
  queue \<open>two_queue\<close> that holds 7 and 9, in the nodes 2 and 3 behind the dummy node 0, the
  first \<^verbatim>\<open>pop()\<close> runs the destructor on the payload of the dummy node 0 and makes node 2
  the dummy with its payload 7 intact; that payload is destroyed by the second \<^verbatim>\<open>pop()\<close>,
  which leaves the queue empty with the payload 9 of the last element intact in the
  dummy node 3.
\<close>

theorem pop_destroys_old_dummy:
  "push_all (q_init 0) [7, 9] = Inr two_queue \<and> q_front two_queue = Inr 7 \<and>
   head two_queue = Some 0 \<and> nxt (heap two_queue ! 0) = Some 2 \<and>
   obj (heap two_queue ! 0) = Some 0 \<and> obj (heap two_queue ! 2) = Some 7 \<and>
   (\<exists>q1 q2. q_pop two_queue = Inr q1 \<and> head q1 = Some 2 \<and>
      obj (heap q1 ! 0) = None \<and> obj (heap q1 ! 2) = Some 7 \<and> q_front q1 = Inr 9 \<and>
      q_pop q1 = Inr q2 \<and> obj (heap q2 ! 2) = None \<and> obj (heap q2 ! 3) = Some 9 \<and>
      q_empty q2)"
  by (simp add: two_queue_def q_init_def q_push_def free_list_empty_def q_pop_def store_def
      load_def q_front_def front_ref_def get_obj_def q_empty_def)

text \<open>
  \<^bold>\<open>C7, amended.\<close>  Let \<open>q\<close> be a well-formed queue whose list from \<open>head\<close> is \<open>ms\<close> (the dummy
  node first) and whose free list is \<open>fs\<close>.  Then:
  \<^item> \<^verbatim>\<open>empty()\<close> is the test \<open>head = tail\<close>, and it holds exactly when the queue has no
    element;
  \<^item> when the queue holds \<open>x # xs\<close>, the front is the node \<open>head->next\<close> and \<^verbatim>\<open>front()\<close>
    returns \<open>x\<close>, the back is the node \<open>tail\<close> and \<^verbatim>\<open>back()\<close> returns the last element;
  \<^item> if the queue is empty then, for every list \<open>xs\<close>, pushing \<open>xs\<close> one by one succeeds
    and \<open>length xs\<close> pairs \<^verbatim>\<open>front(); pop();\<close> afterwards return exactly \<open>xs\<close>, in order,
    leaving the queue empty;
  \<^item> a \<^verbatim>\<open>pop()\<close> on a queue with an element moves \<open>head\<close> from the dummy \<open>m0\<close> to its
    successor \<open>m1\<close>, runs the destructor on the payload stored in the node \<open>m0\<close> it
    detaches, and appends that one node to the free list.  The node \<open>m1\<close> of the
    element that was removed is the new dummy and keeps its payload until the next
    \<^verbatim>\<open>pop()\<close>.
\<close>

theorem spsc_queue_fifo:
  assumes "q_rep q ms fs"
  shows "(q_empty q \<longleftrightarrow> head q = tail q) \<and> (q_empty q \<longleftrightarrow> q_vals q ms = []) \<and>
         (\<forall>x xs. q_vals q ms = map Some (x # xs) \<longrightarrow>
            front_ref q = Inr (ms ! 1) \<and> nxt (heap q ! hd ms) = Some (ms ! 1) \<and>
            q_front q = Inr x \<and>
            back_ref q = Inr (last ms) \<and> tail q = Some (last ms) \<and>
            q_back q = Inr (last (x # xs))) \<and>
         (q_empty q \<longrightarrow> (\<forall>xs. \<exists>q1 q2. push_all q xs = Inr q1 \<and>
            drain q1 (length xs) = Inr (xs, q2) \<and> q_empty q2)) \<and>
         (\<forall>m0 m1 rest. ms = m0 # m1 # rest \<longrightarrow>
            (\<exists>q'. q_pop q = Inr q' \<and>
               head q = Some m0 \<and> head q' = nxt (heap q ! m0) \<and> head q' = Some m1 \<and>
               obj (heap q' ! m0) = None \<and>
               obj (heap q' ! m1) = obj (heap q ! m1) \<and>
               q_rep q' (m1 # rest) (fs @ [m0]) \<and>
               q_vals q' (m1 # rest) = tl (q_vals q ms)))"
proof (intro conjI allI impI)
  show "q_empty q \<longleftrightarrow> head q = tail q" by (simp add: q_empty_def)
next
  have "ms \<noteq> []" using assms by (simp add: q_rep_def)
  then have "length ms = 1 \<longleftrightarrow> tl ms = []" by (cases ms) auto
  then show "q_empty q \<longleftrightarrow> q_vals q ms = []"
    using q_empty_rep[OF assms] by (simp add: q_vals_def)
next
  fix x xs assume v: "q_vals q ms = map Some (x # xs)"
  then obtain m0 m1 rest where ms: "ms = m0 # m1 # rest"
    by (cases ms; cases "tl ms") (auto simp: q_vals_def)
  have x: "obj (heap q ! m1) = Some x" using v by (simp add: q_vals_def ms)
  show "front_ref q = Inr (ms ! 1)" using front_ref_rep[OF assms[unfolded ms]] by (simp add: ms)
  show "nxt (heap q ! hd ms) = Some (ms ! 1)" using assms by (simp add: ms q_rep_def)
  show "q_front q = Inr x" by (rule q_front_rep[OF assms[unfolded ms] x])
  show "back_ref q = Inr (last ms)" by (rule back_ref_rep[OF assms])
  show "tail q = Some (last ms)" using assms by (simp add: q_rep_def)
  have "map (\<lambda>a. obj (heap q ! a)) (m1 # rest) = map Some (x # xs)"
    using v by (simp add: q_vals_def ms)
  then have "last (map (\<lambda>a. obj (heap q ! a)) (m1 # rest)) = last (map Some (x # xs))"
    by simp
  then have "obj (heap q ! last (m1 # rest)) = Some (last (x # xs))"
    by (simp only: last_map list.simps(3) map_is_Nil_conv not_False_eq_True)
  then show "q_back q = Inr (last (x # xs))"
    using q_back_rep[OF assms] by (simp add: ms)
next
  fix xs assume e: "q_empty q"
  then have l: "length ms = 1" using q_empty_rep[OF assms] by simp
  then have v: "q_vals q ms = []" by (cases ms) (auto simp: q_vals_def)
  from push_all_rep[OF assms, of xs] obtain q1 ms' fs' where
    q1: "push_all q xs = Inr q1" "q_rep q1 (ms @ ms') fs'"
        "q_vals q1 (ms @ ms') = q_vals q ms @ map Some xs" by blast
  from drain_rep[OF q1(2)] q1(3) v obtain q2 fs2 where
    q2: "drain q1 (length xs) = Inr (xs, q2)" "q_rep q2 [last (ms @ ms')] fs2" by auto
  have "q_empty q2" using q_empty_rep[OF q2(2)] by simp
  with q1 q2 show "\<exists>q1 q2. push_all q xs = Inr q1 \<and> drain q1 (length xs) = Inr (xs, q2) \<and> q_empty q2"
    by blast
next
  fix m0 m1 rest assume ms: "ms = m0 # m1 # rest"
  from q_pop_obj[OF assms[unfolded ms]] obtain q' where
    q': "q_pop q = Inr q'" "q_rep q' (m1 # rest) (fs @ [m0])" "head q' = Some m1"
        "obj (heap q' ! m0) = None" "\<forall>b. b \<noteq> m0 \<longrightarrow> obj (heap q' ! b) = obj (heap q ! b)"
    by blast
  have d: "m0 \<noteq> m1" "m0 \<notin> set rest" "nxt (heap q ! m0) = Some m1" "head q = Some m0"
    using assms by (auto simp: q_rep_def ms)
  have "map (\<lambda>a. obj (heap q' ! a)) rest = map (\<lambda>a. obj (heap q ! a)) rest"
    using q'(5) d by (intro map_cong) auto
  then have "q_vals q' (m1 # rest) = tl (q_vals q ms)" by (simp add: q_vals_def ms)
  then show "\<exists>q'. q_pop q = Inr q' \<and>
               head q = Some m0 \<and> head q' = nxt (heap q ! m0) \<and> head q' = Some m1 \<and>
               obj (heap q' ! m0) = None \<and>
               obj (heap q' ! m1) = obj (heap q ! m1) \<and>
               q_rep q' (m1 # rest) (fs @ [m0]) \<and>
               q_vals q' (m1 # rest) = tl (q_vals q ms)"
    using q' d by auto
qed

text \<open>\<open>two_queue\<close> is the queue that two pushes on a new queue leave.\<close>

lemma two_queue_pushed: "push_all (q_init 0) [7, 9] = Inr two_queue"
  by (simp add: two_queue_def q_init_def q_push_def free_list_empty_def)

theorem spsc_queue_fifo_witness:
  "q_rep two_queue [0, 2, 3] [1] \<and> q_vals two_queue [0, 2, 3] = map Some [7, 9] \<and>
   q_front two_queue = Inr 7 \<and> q_back two_queue = Inr 9 \<and> \<not> q_empty two_queue \<and>
   (\<exists>q'. q_pop two_queue = Inr q' \<and> head q' = Some 2 \<and> obj (heap q' ! 0) = None \<and>
         obj (heap q' ! 2) = Some 7 \<and> q_rep q' [2, 3] [1, 0]) \<and>
   q_rep (q_init (0::nat)) [0] [1] \<and> q_empty (q_init (0::nat)) \<and>
   (\<exists>q1 q2. push_all (q_init (0::nat)) [7, 9, 4] = Inr q1 \<and>
         drain q1 (length [7, 9, 4::nat]) = Inr ([7, 9, 4], q2) \<and> q_empty q2)"
proof -
  have r: "q_rep two_queue [0, 2, 3] [1]"
    by (simp add: q_rep_def two_queue_def)
  have v: "q_vals two_queue [0, 2, 3] = map Some [7, 9]"
    by (simp add: q_vals_def two_queue_def)
  have r0: "q_rep (q_init (0::nat)) [0] [1]"
    by (simp add: q_rep_def q_init_def)
  have e0: "q_empty (q_init (0::nat))"
    by (simp add: q_empty_def q_init_def)
  have o: "obj (heap two_queue ! 2) = Some 7" by (simp add: two_queue_def)
  note t = spsc_queue_fifo[OF r] and t0 = spsc_queue_fifo[OF r0]
  have ne: "\<not> q_empty two_queue"
    using t[THEN conjunct2, THEN conjunct1] v by simp
  have fb: "q_front two_queue = Inr 7 \<and> q_back two_queue = Inr 9"
    using t[THEN conjunct2, THEN conjunct2, THEN conjunct1, rule_format, of 7 "[9]"] v by simp
  have p: "\<exists>q'. q_pop two_queue = Inr q' \<and> head q' = Some 2 \<and> obj (heap q' ! 0) = None \<and>
         obj (heap q' ! 2) = Some 7 \<and> q_rep q' [2, 3] [1, 0]"
    using t[THEN conjunct2, THEN conjunct2, THEN conjunct2, THEN conjunct2, rule_format, of 0 2 "[3]"] o
    by auto
  have f: "\<exists>q1 q2. push_all (q_init (0::nat)) [7, 9, 4] = Inr q1 \<and>
         drain q1 (length [7, 9, 4::nat]) = Inr ([7, 9, 4], q2) \<and> q_empty q2"
    by (rule t0[THEN conjunct2, THEN conjunct2, THEN conjunct2, THEN conjunct1, rule_format, OF e0, of "[7, 9, 4]"])
  show ?thesis using r v r0 e0 ne fb p f by blast
qed

subsection \<open>C8: the segment list is never empty and \<open>wpos\<close> addresses its tail\<close>

text \<open>
  \<^bold>\<open>C8.\<close>  In every state reached by \<open>init\<close> and any sequence of public operations,
  the queue \<open>buf\<close> holds at least one segment (so \<^verbatim>\<open>buf_.empty()\<close> is false), and the
  pointer \<open>wpos\<close> is the address of the tail node of \<open>buf\<close>, the node whose payload
  \<^verbatim>\<open>buf_.back()\<close> refers to.
\<close>

theorem buf_nonempty_wpos_tail:
  assumes "reachable s"
  shows "(\<exists>segs. q_holds (buf s) segs \<and> segs \<noteq> []) \<and> \<not> q_empty (buf s) \<and>
         (\<exists>a. back_ref (buf s) = Inr a \<and> wpos s = Some a) \<and> wpos s = tail (buf s)"
proof -
  from reachable_inv[OF assms] obtain segs pres frees where r: "rep s segs pres frees"
    by (auto simp: buf_inv_def)
  then have b: "brep (buf s) (wpos s) segs" by (simp add: rep_def)
  then have ne: "segs \<noteq> []" by (auto simp: brep_def)
  have h: "q_holds (buf s) segs" by (rule brep_holds[OF b])
  have "\<not> q_empty (buf s)" using q_holds_empty[OF h] ne by simp
  moreover from brep_back[OF b] have "\<exists>a. back_ref (buf s) = Inr a \<and> wpos s = Some a" by blast
  moreover have "wpos s = tail (buf s)" using b by (auto simp: brep_def q_rep_def)
  ultimately show ?thesis using h ne by blast
qed

theorem buf_nonempty_wpos_tail_witness:
  "reachable ex_two \<and> \<not> q_empty (buf ex_two) \<and> back_ref (buf ex_two) = Inr 3 \<and>
   wpos ex_two = Some 3 \<and> wpos ex_two = tail (buf ex_two)"
  using buf_nonempty_wpos_tail[OF ex_two_reachable] ex_two_reachable
  by (simp add: ex_two_def back_ref_def)

subsection \<open>C9: the flag \<open>one_block_left\<close>\<close>

text \<open>
  \<^bold>\<open>C9.\<close>  In every reachable state, if \<open>one_block_left\<close> is false then \<open>buf\<close> holds
  more than one segment, and the head node is not the node \<open>wpos\<close> addresses.  The
  flag is evaluated anew by every pop of the head segment: whenever \<open>pop_block\<close>
  returns, the flag equals \<open>check_one_block_left\<close> of the new state, that is, it is true
  exactly when one segment is left.
\<close>

theorem one_block_left_hysteresis:
  assumes "reachable s"
  shows "(\<not> one_block_left s \<longrightarrow>
            (\<exists>segs. q_holds (buf s) segs \<and> 1 < length segs) \<and>
            check_one_block_left s = Inr False) \<and>
         (\<forall>s'. pop_block s = Inr s' \<longrightarrow>
            check_one_block_left s' = Inr (one_block_left s') \<and>
            (\<exists>segs. q_holds (buf s') segs \<and> one_block_left s' = (length segs = 1)))"
proof (intro conjI impI allI)
  from reachable_inv[OF assms] obtain segs pres frees where r: "rep s segs pres frees"
    "\<not> one_block_left s \<longrightarrow> 1 < length segs" by (auto simp: buf_inv_def)
  have h: "q_holds (buf s) segs" using r(1) by (auto simp: rep_def intro: brep_holds)
  {
    assume "\<not> one_block_left s"
    with r(2) have l: "1 < length segs" by simp
    with h show "\<exists>segs. q_holds (buf s) segs \<and> 1 < length segs" by blast
    from l show "check_one_block_left s = Inr False"
      using check_one_block_left_rep[OF r(1)] by simp
  }
  fix s' assume p: "pop_block s = Inr s'"
  have ne: "segs \<noteq> []" using r(1) by (auto simp: rep_def brep_def)
  have "length segs \<noteq> 1"
  proof
    assume "length segs = 1"
    then obtain x where x: "segs = [x]" by (cases segs) auto
    from r(1) have b: "brep (buf s) (wpos s) [x]" by (simp add: rep_def x)
    then obtain ms fs where m: "q_rep (buf s) ms fs" "q_vals (buf s) ms = map Some [x]"
      by (auto simp: brep_def)
    then obtain m0 m1 where ms: "ms = [m0, m1]"
      by (cases ms; cases "tl ms"; cases "tl (tl ms)") (auto simp: q_vals_def)
    from brep_front[OF b] obtain r0 where
      r0: "front_ref (buf s) = Inr r0" "get_obj (buf s) r0 = Inr x"
        "\<forall>z. \<exists>b'. set_obj (buf s) r0 z = Inr b' \<and> brep b' (wpos s) (z # tl [x])" by auto
    from r0(3) obtain b1 where b1: "set_obj (buf s) r0 (None, snd x) = Inr b1"
      "brep b1 (wpos s) [(None, snd x)]" by auto
    then obtain ms1 fs1 where m1: "q_rep b1 ms1 fs1" "q_vals b1 ms1 = map Some [(None, snd x)]"
      by (auto simp: brep_def)
    then obtain n0 n1 where ms1: "ms1 = [n0, n1]"
      by (cases ms1; cases "tl ms1"; cases "tl (tl ms1)") (auto simp: q_vals_def)
    from q_pop_vals[OF m1(1)[unfolded ms1]] obtain b2 where
      b2: "q_pop b1 = Inr b2" "q_rep b2 [n1] (fs1 @ [n0])" by blast
    from p r0(1,2) b1(1) b2(1) obtain pl c0 where
      c: "check_one_block_left (s\<lparr>buf := b2, preserved_list := pl, rpos := 0\<rparr>) = Inr c0"
      by (auto simp: pop_block_def bindF_eq_Inr Let_def)
    have "head b2 = Some n1" "nxt (heap b2 ! n1) = None" "n1 < length (heap b2)"
      using b2(2) by (auto simp: q_rep_def)
    then have "front_ref b2 = Inl NullDeref" by (simp add: front_ref_def load_def)
    with c show False by (simp add: check_one_block_left_def)
  qed
  with ne obtain x y rest where segs: "segs = x # y # rest"
    by (cases segs; cases "tl segs") auto
  from pop_block_rep[OF r(1)[unfolded segs]] p obtain b pl where
    s': "s' = s\<lparr>buf := b, preserved_list := pl, rpos := 0, one_block_left := (rest = [])\<rparr>"
    "rep s' (y # rest) (pres @ [x]) frees" by auto
  show "check_one_block_left s' = Inr (one_block_left s')"
    using check_one_block_left_rep[OF s'(2)] by (simp add: s'(1))
  have "q_holds (buf s') (y # rest)" using s'(2) by (auto simp: rep_def intro: brep_holds)
  moreover have "one_block_left s' = (length (y # rest) = 1)" by (simp add: s'(1))
  ultimately show "\<exists>segs. q_holds (buf s') segs \<and> one_block_left s' = (length segs = 1)" by blast
qed

theorem one_block_left_hysteresis_witness:
  "reachable ex_behind \<and> \<not> one_block_left ex_behind \<and>
   check_one_block_left ex_behind = Inr False \<and>
   (\<exists>segs. q_holds (buf ex_behind) segs \<and> 1 < length segs) \<and>
   reachable ex_three \<and> pop_block ex_three = Inr (ex_behind\<lparr>rpos := 0\<rparr>) \<and>
   check_one_block_left (ex_behind\<lparr>rpos := 0\<rparr>) = Inr (one_block_left (ex_behind\<lparr>rpos := 0\<rparr>))"
proof -
  have f: "\<not> one_block_left ex_behind" by (simp add: ex_behind_def)
  have p: "pop_block ex_three = Inr (ex_behind\<lparr>rpos := 0\<rparr>)"
    by (simp add: ex_simps ex_three_def ex_behind_def)
  note a = one_block_left_hysteresis[OF ex_behind_reachable, THEN conjunct1, rule_format, OF f]
  note b = one_block_left_hysteresis[OF ex_three_reachable, THEN conjunct2, rule_format, OF p]
  show ?thesis using a b f p ex_behind_reachable ex_three_reachable by blast
qed

subsection \<open>C2: what \<^verbatim>\<open>empty()\<close> returns\<close>



subsection \<open>C4: what \<^verbatim>\<open>input_from_fd\<close> and \<^verbatim>\<open>output_to_fd\<close> return\<close>



subsection \<open>C1: a string written and read back\<close>

text \<open>
  \<^bold>\<open>C1.\<close>  \<^verbatim>\<open>write(str)\<close> copies the length and then the bytes with the splitting
  \<^verbatim>\<open>write\<close>, which fills the tail block before it links the next one, while
  \<^verbatim>\<open>get_string()\<close> reads each of the two from one block.  On a buffer with 16-byte blocks,
  just initialised, the ten bytes \<open>0123456789\<close> are written as eight bytes of length
  and \<open>01234567\<close> in the first block and \<open>89\<close> in the second; \<^verbatim>\<open>get_string()\<close> then
  returns the first ten bytes of the second block, \<open>89\<close> and eight bytes that were never
  written.
\<close>

theorem write_string_get_string_straddle:
  "\<exists>s0 s1 s2. init 4096 (unset gar) 16 = Inr s0 \<and>
     write_string s0 ''0123456789'' True = Inr s1 \<and>
     get_string s1 = Inr (''89........'', s2)"
proof -
  from sees_sixteen obtain s0 where s0: "init 4096 (unset gar) 16 = Inr s0" "sees s0 v_sixteen"
    by blast
  from sim_write_string[OF s0(2), of "''0123456789''" True] v_sixteen_write
  obtain s1 where s1: "write_string s0 ''0123456789'' True = Inr s1" "sees s1 v_straddle"
    by (auto simp: sim_def rel_res_def)
  from simr_get_string[OF s1(2)] v_straddle_get
  obtain s2 where "get_string s1 = Inr (''89........'', s2)"
    by (auto simp: simr_def rel_res_def)
  then show ?thesis using s0(1) s1(1) by blast
qed

text \<open>
  \<^bold>\<open>C1, amended.\<close>  Let the buffer hold one segment with nothing left to read
  (\<open>rpos = wpos_private\<close>, \<open>one_block_left\<close> set), let the length prefix land in one block
  (it fits in the rest of the tail block, or the tail block is full and \<open>8 \<le> block_size\<close>),
  and let the bytes of the string, if there are any, land in one block in the same way from
  the position after the prefix.  Then \<^verbatim>\<open>write(str, notify)\<close> returns and the
  \<^verbatim>\<open>get_string()\<close> that follows returns \<open>str\<close>.
\<close>

theorem write_string_get_string_unsplit:
  assumes "sees s v" "v_wf v" "length (v_segs v) = 1"
    and "one_block_left s" "rpos s = wpos_private s" "length str < 2 ^ 64"
    and "wpos_private s + 8 \<le> block_size s \<or>
         (wpos_private s = block_size s \<and> 8 \<le> block_size s)"
    and "str = [] \<or>
         (if wpos_private s + 8 \<le> block_size s then wpos_private s + 8 else 8)
           + length str \<le> block_size s \<or>
         ((if wpos_private s + 8 \<le> block_size s then wpos_private s + 8 else 8)
           = block_size s \<and> length str \<le> block_size s)"
  shows "\<exists>s1 s2. write_string s str n = Inr s1 \<and> get_string s1 = Inr (str, s2)"
proof -
  have e: "block_size s = v_block_size v" "wpos_private s = v_wpos_private v"
    "rpos s = v_rpos v" "one_block_left s = v_one_block_left v"
    using assms(1) by (simp_all add: sees_def)
  from v_write_string_get_string[OF assms(2,3) assms(4)[unfolded e] assms(5)[unfolded e]
      assms(6) assms(7)[unfolded e] assms(8)[unfolded e], of n]
  obtain v1 v2 where v: "v_write_string v str n = Inr v1" "v_get_string v1 = Inr (str, v2)"
    by blast
  from sim_write_string[OF assms(1), of str n] v(1)
  obtain s1 where s1: "write_string s str n = Inr s1" "sees s1 v1"
    by (auto simp: sim_def rel_res_def)
  from simr_get_string[OF s1(2)] v(2)
  obtain s2 where "get_string s1 = Inr (str, s2)"
    by (auto simp: simr_def rel_res_def)
  then show ?thesis using s1(1) by blast
qed

theorem write_string_get_string_unsplit_witness:
  "\<exists>s0 s1 s2. init 4096 (unset gar) 16 = Inr s0 \<and>
     write_string s0 ''012345'' True = Inr s1 \<and> get_string s1 = Inr (''012345'', s2)"
proof -
  from sees_sixteen obtain s0 where s0: "init 4096 (unset gar) 16 = Inr s0" "sees s0 v_sixteen"
    by blast
  have f: "one_block_left s0" "rpos s0 = wpos_private s0" "block_size s0 = 16"
    "wpos_private s0 = 0"
    using s0(2) by (simp_all add: sees_def v_sixteen_def)
  have "\<exists>s1 s2. write_string s0 ''012345'' True = Inr s1 \<and> get_string s1 = Inr (''012345'', s2)"
    by (rule write_string_get_string_unsplit[OF s0(2) v_wf_sixteen])
       (simp_all add: f v_sixteen_def)
  then show ?thesis using s0(1) by blast
qed

subsection \<open>C6: the sequential buffer against the SPSC buffer\<close>

text \<open>
  \<^bold>\<open>C6.\<close>  Two buffers with 16-byte blocks, one of each class, are given the same two
  calls: \<^verbatim>\<open>write_cont(std::string())\<close> and \<^verbatim>\<open>empty()\<close>.  The SPSC buffer copies the eight
  bytes of the length with \<^verbatim>\<open>notify = false\<close> and returns from the second
  \<^verbatim>\<open>write_cont\<close> before its \<^verbatim>\<open>notify()\<close>, the range being empty, so the end of the tail
  segment is still 0 and \<^verbatim>\<open>empty()\<close> returns true with eight bytes in the buffer.
  \<^verbatim>\<open>BlockBuffer::empty()\<close> compares \<^verbatim>\<open>rpos_\<close> with \<^verbatim>\<open>wpos_\<close>, which is 8, and returns
  false.  So does the SPSC buffer after \<^verbatim>\<open>write(std::string())\<close>, whose second \<^verbatim>\<open>write\<close>
  reaches \<^verbatim>\<open>notify()\<close> for an empty range too.
\<close>

theorem write_cont_empty_string_hidden:
  "\<exists>s0 s1 s2 t1 s3 s4. init 4096 (unset gar) 16 = Inr s0 \<and>
     write_cont_string s0 [] True = Inr s1 \<and> empty s1 = Inr (True, s2) \<and>
     bb_write_cont_string (bb_construct 4096 gar 16) [] = Inr t1 \<and> bb_empty t1 = Inr False \<and>
     write_string s0 [] True = Inr s3 \<and> empty s3 = Inr (False, s4) \<and>
     trace s0 [Write_cont_string [], Empty] = [Some R_void, Some (R_bool True)] \<and>
     bb_trace (bb_construct 4096 gar 16) [Write_cont_string [], Empty] =
       [Some R_void, Some (R_bool False)]"
proof -
  from sees_sixteen obtain s0 where s0: "init 4096 (unset gar) 16 = Inr s0" "sees s0 v_sixteen"
    by blast
  from sim_write_cont_string[OF s0(2), of "[]" True] v_sixteen_write_cont
  obtain s1 where s1: "write_cont_string s0 [] True = Inr s1" "sees s1 v_hidden"
    by (auto simp: sim_def rel_res_def)
  from sim_empty[OF s1(2)] v_hidden_empty
  obtain s2 where s2: "empty s1 = Inr (True, s2)" by auto
  from sim_write_string[OF s0(2), of "[]" True] v_sixteen_write_empty
  obtain s3 where s3: "write_string s0 [] True = Inr s3" "sees s3 v_shown"
    by (auto simp: sim_def rel_res_def)
  from sim_empty[OF s3(2)] v_shown_empty
  obtain s4 where s4: "empty s3 = Inr (False, s4)" by auto
  let ?t1 = "(bb_construct 4096 gar 16)\<lparr>bb_buf :=
        [(Some ([CHR 0x00, CHR 0x00, CHR 0x00, CHR 0x00, CHR 0x00, CHR 0x00, CHR 0x00, CHR 0x00]
                @ ''........''), npos)], bb_wpos := 8\<rparr>"
  have e: "bb_empty ?t1 = Inr False"
    by (simp add: bb_empty_def bb_construct_def sq_front_def Let_def)
  have 1: "trace s0 [Write_cont_string [], Empty] = [Some R_void, Some (R_bool True)]"
    by (simp add: s1(1) s2)
  have 2: "bb_trace (bb_construct 4096 gar 16) [Write_cont_string [], Empty] =
       [Some R_void, Some (R_bool False)]"
    using e by (simp add: bb_sixteen_write_cont)
  show ?thesis using s0(1) s1(1) s2 s3(1) s4 bb_sixteen_write_cont e 1 2 by blast
qed

text \<open>
  Where the two classes do agree.  Let an SPSC buffer and a \<^verbatim>\<open>BlockBuffer\<close> be made with
  the same block size, below \<^verbatim>\<open>(size_t)-1\<close>, and the same memory, and let both be given the
  same list of calls of \<^verbatim>\<open>write\<close> (ranges, typed values, strings), \<^verbatim>\<open>write_cont\<close> (ranges,
  typed values, strings that are not empty), \<^verbatim>\<open>read<T>\<close>, \<^verbatim>\<open>ensure_cont\<close>, \<^verbatim>\<open>empty\<close> and
  \<^verbatim>\<open>input_from_fd\<close>, with the default \<^verbatim>\<open>notify\<close> and \<^verbatim>\<open>max_len\<close>.  Then the two return
  the same values call by call, and a call faults in one exactly when it faults in the
  other.
\<close>

theorem shared_operations_agree:
  assumes "init pagesz (unset u) bs = Inr s"
    and "(if bs = - 1 then pagesz else to_size bs) < npos"
    and "Write_cont_string [] \<notin> set cs"
  shows "trace s cs = bb_trace (bb_construct pagesz u bs) cs"
  by (rule trace_agree[OF same_init[OF assms(1,2)] assms(3)])

theorem shared_operations_agree_witness:
  "\<exists>s. init 4096 (unset gar) 16 = Inr s \<and>
     trace s [Write_string ''hi'', Empty, Read_T 8, Read_T 2, Empty] =
     [Some R_void, Some (R_bool False),
      Some (R_bytes [CHR 0x02, CHR 0x00, CHR 0x00, CHR 0x00, CHR 0x00, CHR 0x00, CHR 0x00, CHR 0x00]),
      Some (R_bytes ''hi''), Some (R_bool True)]"
proof -
  from sees_sixteen obtain s where s: "init 4096 (unset gar) 16 = Inr s" by blast
  have b: "(if (16 :: int) = - 1 then 4096 else to_size 16) < npos"
    by (simp add: to_size_def npos_def)
  have c: "Write_cont_string [] \<notin> set [Write_string ''hi'', Empty, Read_T 8, Read_T 2, Empty]"
    by simp
  from shared_operations_agree[OF s b c] bb_sixteen_trace
  have "trace s [Write_string ''hi'', Empty, Read_T 8, Read_T 2, Empty] =
     [Some R_void, Some (R_bool False),
      Some (R_bytes [CHR 0x02, CHR 0x00, CHR 0x00, CHR 0x00, CHR 0x00, CHR 0x00, CHR 0x00, CHR 0x00]),
      Some (R_bytes ''hi''), Some (R_bool True)]" by simp
  then show ?thesis using s by blast
qed

subsection \<open>C5: \<^verbatim>\<open>write_cont\<close> keeps the range in one segment\<close>

text \<open>
  \<^bold>\<open>C5.\<close>  Let the buffer \<open>s\<close> be seen as the well-formed view \<open>v\<close>, and let
  \<open>0 < k \<le> block_size\<close> for the length \<open>k\<close> of the range.  Then
  \<^verbatim>\<open>write_cont(begin, end, notify)\<close> returns.  If \<open>k\<close> fits in the rest of the tail
  segment (\<open>k \<le> block_size - wpos_private\<close>) the bytes are copied into the tail block from
  offset \<open>wpos_private\<close>.  Otherwise the tail segment is closed first, with its block
  untouched and its end stored as \<open>wpos_private\<close>, a segment with the next block (the first
  of the free list, or a new one) is linked after it, and the bytes are copied into that block
  from offset \<open>0\<close>.  In both cases the \<open>k\<close> bytes lie in one block, from the offset
  \<open>start\<close> they were copied to up to \<open>start + k \<le> block_size\<close>, and \<open>wpos_private\<close> ends
  as \<open>start + k\<close>: it has advanced by \<open>k\<close> from the start of the copy.
\<close>

theorem write_cont_contiguous:
  assumes "sees s v" "v_wf v" "bytes \<noteq> []" "length bytes \<le> block_size s"
  shows "\<exists>s' tb. fst (last (v_segs v)) = Some tb \<and> write_cont_range s bytes n = Inr s' \<and>
    (let w = wpos_private s; k = length bytes;
         fits = (k \<le> block_size s - w);
         start = (if fits then w else 0);
         blk' = overlay (if fits then tb else v_next_block v) start bytes;
         e' = (if n then start + k else if fits then snd (last (v_segs v)) else 0)
     in sees s'
          (v\<lparr>v_segs := (if fits then butlast (v_segs v)
                          else butlast (v_segs v) @ [(Some tb, w)]) @ [(Some blk', e')],
             v_frees := (if fits then v_frees v else tl (v_frees v)),
             v_wpos_private := start + k,
             v_allocs := (if \<not> fits \<and> v_frees v = [] then Suc (v_allocs v) else v_allocs v)\<rparr>) \<and>
        wpos_private s' = start + k \<and> start + k \<le> block_size s \<and>
        length blk' = block_size s \<and> take k (drop start blk') = bytes)"
proof -
  from v_wf_tail[OF assms(2)] obtain tb where tb: "fst (last (v_segs v)) = Some tb"
    "length tb = v_block_size v" by blast
  have e: "block_size s = v_block_size v" "wpos_private s = v_wpos_private v"
    using assms(1) by (simp_all add: sees_def)
  have w: "v_wpos_private v \<le> v_block_size v" using assms(2) by (simp add: v_wf_def)
  note vw = v_write_cont_range_wf[OF assms(2,3) assms(4)[unfolded e] tb(1), of n]
  from sim_write_cont_range[OF assms(1), of bytes n] vw obtain s' where
    s': "write_cont_range s bytes n = Inr s'" and
    v': "sees s' (let w = v_wpos_private v; k = length bytes;
         fits = (k \<le> v_block_size v - w);
         start = (if fits then w else 0);
         blk' = overlay (if fits then tb else v_next_block v) start bytes;
         e' = (if n then start + k else if fits then snd (last (v_segs v)) else 0)
     in v\<lparr>v_segs := (if fits then butlast (v_segs v)
                      else butlast (v_segs v) @ [(Some tb, w)]) @ [(Some blk', e')],
          v_frees := (if fits then v_frees v else tl (v_frees v)),
          v_wpos_private := start + k,
          v_allocs := (if \<not> fits \<and> v_frees v = [] then Suc (v_allocs v) else v_allocs v)\<rparr>)"
    by (auto simp: sim_def rel_res_def)
  have l: "length (v_next_block v) = v_block_size v" by (rule v_next_block_length[OF assms(2)])
  show ?thesis
  proof (cases "length bytes \<le> v_block_size v - v_wpos_private v")
    case True
    then have le: "v_wpos_private v + length bytes \<le> length tb" using w tb(2) by simp
    show ?thesis using tb s' v' True le e
      by (intro exI[of _ s'] exI[of _ tb]) (simp add: Let_def sees_def)
  next
    case False
    have le: "0 + length bytes \<le> length (v_next_block v)" using l assms(4) e by simp
    show ?thesis using tb s' v' False le e l overlay_slice[OF le] overlay_length[OF le]
      by (intro exI[of _ s'] exI[of _ tb]) (simp add: Let_def sees_def)
  qed
qed

theorem write_cont_contiguous_witness:
  "sees ex_ab v_ab \<and> v_wf v_ab \<and> ''xyz'' \<noteq> [] \<and> length ''xyz'' \<le> block_size ex_ab \<and>
   (\<exists>s'. write_cont_range ex_ab ''xyz'' True = Inr s' \<and>
      sees s' (v_ab\<lparr>v_segs := [(Some ''ab..'', 2), (Some ''xyz.'', 3)],
                    v_wpos_private := 3, v_allocs := 2\<rparr>) \<and>
      wpos_private s' = 3) \<and>
   (\<exists>s'. write_cont_range ex_ab ''x'' False = Inr s' \<and>
      sees s' (v_ab\<lparr>v_segs := [(Some ''abx.'', 2)], v_wpos_private := 3\<rparr>) \<and>
      wpos_private s' = 3)"
proof -
  have a: "''xyz'' \<noteq> []" "length ''xyz'' \<le> block_size ex_ab"
    and b: "''x'' \<noteq> []" "length ''x'' \<le> block_size ex_ab"
    by (simp_all add: ex_ab_def)
  have nb: "v_next_block \<lparr>v_block_size = 4, v_segs = sg, v_pres = p, v_frees = [], v_rpos = r,
      v_wpos_private = w, v_one_block_left = f, v_uninit = gar, v_allocs = a\<rparr> = ''....''"
    for sg p r w f a
    by (simp add: v_next_block_def v_new_block_def gar_def upt_rec)
  from write_cont_contiguous[OF sees_ex_ab v_wf_v_ab a, of True]
  have 1: "\<exists>s'. write_cont_range ex_ab ''xyz'' True = Inr s' \<and>
      sees s' (v_ab\<lparr>v_segs := [(Some ''ab..'', 2), (Some ''xyz.'', 3)],
                    v_wpos_private := 3, v_allocs := 2\<rparr>) \<and>
      wpos_private s' = 3"
    by (simp add: Let_def nb overlay_def v_ab_def ex_ab_def) (simp add: eval_nat_numeral)
  from write_cont_contiguous[OF sees_ex_ab v_wf_v_ab b, of False]
  have 2: "\<exists>s'. write_cont_range ex_ab ''x'' False = Inr s' \<and>
      sees s' (v_ab\<lparr>v_segs := [(Some ''abx.'', 2)], v_wpos_private := 3\<rparr>) \<and>
      wpos_private s' = 3"
    by (simp add: Let_def overlay_def v_ab_def ex_ab_def)
  show ?thesis using sees_ex_ab v_wf_v_ab a 1 2 by blast
qed

subsection \<open>C10 and C3: \<^verbatim>\<open>BlockBuffer::clear_preserved\<close> on an empty preserved list\<close>

text \<open>
  \<^bold>\<open>C10.\<close>  On a \<^verbatim>\<open>BlockBuffer\<close> as its constructor leaves it the preserved list is
  empty, and \<^verbatim>\<open>clear_preserved(n)\<close> reads \<^verbatim>\<open>preserved_list_.front()\<close> at once, for every
  \<open>n\<close>: the loop has no test for an empty list.
\<close>

theorem bb_clear_preserved_reads_empty_front:
  "bb_clear_preserved (bb_construct pagesz u bs) n = Inl EmptyFront"
  by (simp add: bb_clear_preserved_def bb_construct_def)

text \<open>
  \<^bold>\<open>C3.\<close>  The same call on the SPSC buffer returns and changes nothing, while the
  sequential buffer reads the front of its empty preserved list.
\<close>

theorem clear_preserved_differs_on_empty_list:
  "init 4096 (unset gar) 4 = Inr ex_one \<and> clear_preserved ex_one n = Inr ex_one \<and>
   bb_clear_preserved (bb_construct 4096 gar 4) n = Inl EmptyFront"
  by (simp add: ex_one_init bb_clear_preserved_def bb_construct_def clear_preserved_def
      ex_one_def q_init_def q_empty_def)

end
